theory Spec2Isabelle
  imports Main "HOL-Library.Sublist"
begin

section \<open>Value parsers and option cells\<close>

text \<open>
  \<^verbatim>\<open>ArgumentValueParser<T>\<close> (ArgumentParser.ts): \<^verbatim>\<open>parse(value: string): T | undefined\<close>.
  A parser is a function from a token to an optional result; \<open>None\<close> is \<^verbatim>\<open>undefined\<close>.
  The result types of the parsers of one descriptor are modelled by one type \<open>'v\<close> (their union).
\<close>

type_synonym 'v ArgumentValueParser = "string \<Rightarrow> 'v option"

text \<open>
  Modelled from the spec: the \<^verbatim>\<open>Option\<close> cell class is imported from the package
  \<^verbatim>\<open>@rbxts/zycore\<close> and is not part of the sources. The spec (OptionalSlot) describes it as a
  single-assignment cell that starts empty, is filled by \<^verbatim>\<open>set(v)\<close> and is queried by
  \<^verbatim>\<open>isSome()\<close>. A cell is an \<open>'v option\<close>; \<open>opt_set cell v\<close> is the cell after
  \<^verbatim>\<open>cell.set(v)\<close>, where \<open>v = None\<close> is a call with \<^verbatim>\<open>undefined\<close>: an empty cell
  takes the argument, a filled cell keeps its content. A resolution started by \<^verbatim>\<open>compile\<close>
  reaches every step with the cell of that step still empty (lemma \<open>calls_inv\<close> below), and
  the loop over the parsers of a step ends as soon as the cell is filled, so the engine never
  calls \<^verbatim>\<open>set\<close> on a filled cell.
\<close>

definition nones :: "nat \<Rightarrow> 'v option list" where
  "nones n = replicate n None"

definition opt_set :: "'v option \<Rightarrow> 'v option \<Rightarrow> 'v option" where
  "opt_set cell v = (case cell of None \<Rightarrow> v | Some x \<Rightarrow> Some x)"

definition isSome :: "'v option \<Rightarrow> bool" where
  "isSome cell = (cell \<noteq> None)"

section \<open>ArgumentDescriptor.ts: the resolution engine\<close>

record 'v ParseStep =
  parsers :: "'v ArgumentValueParser list"
  required :: bool

text \<open>
  The \<^verbatim>\<open>for (const parser of parsers)\<close> loop of \<^verbatim>\<open>parseFrom\<close>, on the cell
  \<^verbatim>\<open>opt\<close> and the token: every iteration calls \<^verbatim>\<open>opt.set(parser.parse(value))\<close> and
  leaves the loop (second component \<open>True\<close>) as soon as \<^verbatim>\<open>opt.isSome()\<close>.
\<close>

fun tryParsers :: "'v ArgumentValueParser list \<Rightarrow> string \<Rightarrow> 'v option \<Rightarrow> 'v option \<times> bool" where
  "tryParsers [] tok opt = (opt, False)"
| "tryParsers (parser # rest) tok opt =
     (let opt' = opt_set opt (parser tok) in
      if isSome opt' then (opt', True) else tryParsers rest tok opt')"

text \<open>
  \<^verbatim>\<open>parseFrom(args, stepIndex, argumentIndex, options)\<close>. The three reads
  \<^verbatim>\<open>args[argumentIndex]\<close>, \<^verbatim>\<open>this.steps[stepIndex]\<close>, \<^verbatim>\<open>options[stepIndex]\<close> give
  \<^verbatim>\<open>undefined\<close> out of range, which is the guard of the first line. The cell is an object
  held by the array \<^verbatim>\<open>options\<close>, so its mutation is an update of the list at \<open>stepIndex\<close>.
\<close>

function parseFrom ::
  "'v ParseStep list \<Rightarrow> string list \<Rightarrow> nat \<Rightarrow> nat \<Rightarrow> 'v option list \<Rightarrow> 'v option list" where
  "parseFrom stepList argList stepIndex argumentIndex options =
     (if length argList \<le> argumentIndex \<or> length stepList \<le> stepIndex \<or> length options \<le> stepIndex
      then options
      else
        (case tryParsers (parsers (stepList ! stepIndex)) (argList ! argumentIndex) (options ! stepIndex) of
           (opt, matched) \<Rightarrow>
             (if matched
              then parseFrom stepList argList (stepIndex + 1) (argumentIndex + 1) (options[stepIndex := opt])
              else if required (stepList ! stepIndex) then options[stepIndex := opt]
              else parseFrom stepList argList (stepIndex + 1) argumentIndex (options[stepIndex := opt]))))"
  by pat_completeness auto
termination
  by (relation "measure (\<lambda>(stepList, argList, stepIndex, argumentIndex, options). length stepList - stepIndex)")
     auto

declare parseFrom.simps [simp del]

text \<open>
  The sequence of invocations of \<^verbatim>\<open>parseFrom\<close> made by one run, each with its step cursor,
  its token cursor and the option array it receives: the same recursion, recording the
  arguments of every call. Every invocation makes at most one nested call.
\<close>

function parseFrom_calls ::
  "'v ParseStep list \<Rightarrow> string list \<Rightarrow> nat \<Rightarrow> nat \<Rightarrow> 'v option list \<Rightarrow> (nat \<times> nat \<times> 'v option list) list" where
  "parseFrom_calls stepList argList stepIndex argumentIndex options =
     (stepIndex, argumentIndex, options) #
     (if length argList \<le> argumentIndex \<or> length stepList \<le> stepIndex \<or> length options \<le> stepIndex
      then []
      else
        (case tryParsers (parsers (stepList ! stepIndex)) (argList ! argumentIndex) (options ! stepIndex) of
           (opt, matched) \<Rightarrow>
             (if matched
              then parseFrom_calls stepList argList (stepIndex + 1) (argumentIndex + 1) (options[stepIndex := opt])
              else if required (stepList ! stepIndex) then []
              else parseFrom_calls stepList argList (stepIndex + 1) argumentIndex (options[stepIndex := opt]))))"
  by pat_completeness auto
termination
  by (relation "measure (\<lambda>(stepList, argList, stepIndex, argumentIndex, options). length stepList - stepIndex)")
     auto

declare parseFrom_calls.simps [simp del]

text \<open>
  The calls of \<^verbatim>\<open>opt.set\<close> made by the loop of one step, as the list of their arguments,
  and the calls made by a whole run, each with the index of the cell it is made on: the same
  loop and the same recursion, recording every \<^verbatim>\<open>set\<close>.
\<close>

fun tryParsers_sets :: "'v ArgumentValueParser list \<Rightarrow> string \<Rightarrow> 'v option \<Rightarrow> 'v option list" where
  "tryParsers_sets [] tok opt = []"
| "tryParsers_sets (parser # rest) tok opt =
     (let opt' = opt_set opt (parser tok) in
      parser tok # (if isSome opt' then [] else tryParsers_sets rest tok opt'))"

function parseFrom_sets ::
  "'v ParseStep list \<Rightarrow> string list \<Rightarrow> nat \<Rightarrow> nat \<Rightarrow> 'v option list \<Rightarrow> (nat \<times> 'v option) list" where
  "parseFrom_sets stepList argList stepIndex argumentIndex options =
     (if length argList \<le> argumentIndex \<or> length stepList \<le> stepIndex \<or> length options \<le> stepIndex
      then []
      else
        map (Pair stepIndex)
          (tryParsers_sets (parsers (stepList ! stepIndex)) (argList ! argumentIndex) (options ! stepIndex)) @
        (case tryParsers (parsers (stepList ! stepIndex)) (argList ! argumentIndex) (options ! stepIndex) of
           (opt, matched) \<Rightarrow>
             (if matched
              then parseFrom_sets stepList argList (stepIndex + 1) (argumentIndex + 1) (options[stepIndex := opt])
              else if required (stepList ! stepIndex) then []
              else parseFrom_sets stepList argList (stepIndex + 1) argumentIndex (options[stepIndex := opt]))))"
  by pat_completeness auto
termination
  by (relation "measure (\<lambda>(stepList, argList, stepIndex, argumentIndex, options). length stepList - stepIndex)")
     auto

declare parseFrom_sets.simps [simp del]

text \<open>The cells from index \<open>k\<close> on are all empty.\<close>

definition tail_empty :: "nat \<Rightarrow> 'v option list \<Rightarrow> bool" where
  "tail_empty k os = (\<forall>j. k \<le> j \<and> j < length os \<longrightarrow> os ! j = None)"

section \<open>Arrays held by reference\<close>

text \<open>
  A \<^verbatim>\<open>string[]\<close> is a mutable object that several owners can hold. The store maps the
  address of every array to its content; \<open>nextRef\<close> is the next unused address.
\<close>

record heap =
  arrays :: "nat \<Rightarrow> string list"
  nextRef :: nat

definition new_array :: "string list \<Rightarrow> heap \<Rightarrow> nat \<times> heap" where
  "new_array xs h = (nextRef h, h\<lparr>arrays := (arrays h)(nextRef h := xs), nextRef := nextRef h + 1\<rparr>)"

text \<open>\<^verbatim>\<open>xs[index]\<close>: \<^verbatim>\<open>undefined\<close> out of range.\<close>

definition array_index :: "string list \<Rightarrow> int \<Rightarrow> string option" where
  "array_index xs index = (if 0 \<le> index \<and> nat index < length xs then Some (xs ! nat index) else None)"

text \<open>\<^verbatim>\<open>shift()\<close> and \<^verbatim>\<open>pop()\<close> remove and return the first and the last element,
  \<^verbatim>\<open>undefined\<close> on an empty array; \<^verbatim>\<open>remove(n)\<close> deletes the element at index \<open>n\<close>.\<close>

definition array_shift :: "nat \<Rightarrow> heap \<Rightarrow> string option \<times> heap" where
  "array_shift a h =
     (case arrays h a of
        [] \<Rightarrow> (None, h)
      | x # xs \<Rightarrow> (Some x, h\<lparr>arrays := (arrays h)(a := xs)\<rparr>))"

definition array_pop :: "nat \<Rightarrow> heap \<Rightarrow> string option \<times> heap" where
  "array_pop a h =
     (case arrays h a of
        [] \<Rightarrow> (None, h)
      | x # xs \<Rightarrow> (Some (last (x # xs)), h\<lparr>arrays := (arrays h)(a := butlast (x # xs))\<rparr>))"

definition array_remove :: "nat \<Rightarrow> nat \<Rightarrow> heap \<Rightarrow> heap" where
  "array_remove a n h = h\<lparr>arrays := (arrays h)(a := take n (arrays h a) @ drop (n + 1) (arrays h a))\<rparr>"

fun array_join :: "string \<Rightarrow> string list \<Rightarrow> string" where
  "array_join sep [] = []"
| "array_join sep [x] = x"
| "array_join sep (x # y # ys) = x @ sep @ array_join sep (y # ys)"

section \<open>ArgumentDescriptor.ts: the descriptor\<close>

text \<open>
  The descriptor holds its steps and a reference to the default token array
  (\<^verbatim>\<open>private defaultArgs: string[] = []\<close>: the constructor stores the array it is given and
  allocates an empty one when it is given none).
\<close>

record 'v ArgumentDescriptor =
  steps :: "'v ParseStep list"
  defaultArgs :: nat

datatype 'v Parsers = Single "'v ArgumentValueParser" | Many "'v ArgumentValueParser list"

definition ArgumentDescriptor_new :: "nat option \<Rightarrow> heap \<Rightarrow> 'v ArgumentDescriptor \<times> heap" where
  "ArgumentDescriptor_new given h =
     (case given of
        Some a \<Rightarrow> (\<lparr>steps = [], defaultArgs = a\<rparr>, h)
      | None \<Rightarrow> (case new_array [] h of (a, h') \<Rightarrow> (\<lparr>steps = [], defaultArgs = a\<rparr>, h')))"

fun resolveParsers :: "'v Parsers \<Rightarrow> 'v ArgumentValueParser list" where
  "resolveParsers (Many ps) = ps"
| "resolveParsers (Single p) = [p]"

text \<open>\<^verbatim>\<open>then(parsers, required = false)\<close> and \<^verbatim>\<open>thenIf(condition, parsers, required = false)\<close>;
  \<open>then\<close> is a keyword of Isabelle, hence the name \<open>thenStep\<close>. Both push one step and return
  the descriptor.\<close>

definition thenStep :: "'v Parsers \<Rightarrow> bool \<Rightarrow> 'v ArgumentDescriptor \<Rightarrow> 'v ArgumentDescriptor" where
  "thenStep ps req this = this\<lparr>steps := steps this @ [\<lparr>parsers = resolveParsers ps, required = req\<rparr>]\<rparr>"

definition thenIf :: "bool \<Rightarrow> 'v Parsers \<Rightarrow> bool \<Rightarrow> 'v ArgumentDescriptor \<Rightarrow> 'v ArgumentDescriptor" where
  "thenIf condition ps req this =
     (if condition then this\<lparr>steps := steps this @ [\<lparr>parsers = resolveParsers ps, required = req\<rparr>]\<rparr>
      else this\<lparr>steps := steps this @ [\<lparr>parsers = [], required = False\<rparr>]\<rparr>)"

text \<open>
  \<^verbatim>\<open>compile(args = this.defaultArgs)\<close>: the tokens are the array passed by the caller
  (\<open>Some xs\<close>) or, by default (\<open>None\<close>), the current content of the array the descriptor
  refers to. \<open>compile_calls\<close> and \<open>compile_sets\<close> are the invocations of \<^verbatim>\<open>parseFrom\<close> and
  the calls of \<^verbatim>\<open>set\<close> of the same run; \<open>compile_depth\<close> is the number of nested calls
  below the first invocation.
\<close>

definition compile_args :: "heap \<Rightarrow> 'v ArgumentDescriptor \<Rightarrow> string list option \<Rightarrow> string list" where
  "compile_args h this given = (case given of None \<Rightarrow> arrays h (defaultArgs this) | Some xs \<Rightarrow> xs)"

definition compile :: "heap \<Rightarrow> 'v ArgumentDescriptor \<Rightarrow> string list option \<Rightarrow> 'v option list" where
  "compile h this given =
     parseFrom (steps this) (compile_args h this given) 0 0 (nones (length (steps this)))"

definition compile_calls ::
  "heap \<Rightarrow> 'v ArgumentDescriptor \<Rightarrow> string list option \<Rightarrow> (nat \<times> nat \<times> 'v option list) list" where
  "compile_calls h this given =
     parseFrom_calls (steps this) (compile_args h this given) 0 0 (nones (length (steps this)))"

definition compile_sets ::
  "heap \<Rightarrow> 'v ArgumentDescriptor \<Rightarrow> string list option \<Rightarrow> (nat \<times> 'v option) list" where
  "compile_sets h this given =
     parseFrom_sets (steps this) (compile_args h this given) 0 0 (nones (length (steps this)))"

definition compile_depth :: "heap \<Rightarrow> 'v ArgumentDescriptor \<Rightarrow> string list option \<Rightarrow> nat" where
  "compile_depth h this given = length (compile_calls h this given) - 1"


text \<open>
  The arguments of the \<^verbatim>\<open>set\<close> calls that a log records for cell \<open>j\<close>, in order, and those
  among them that carry a result.
\<close>

definition sets_on :: "nat \<Rightarrow> (nat \<times> 'v option) list \<Rightarrow> 'v option list" where
  "sets_on j log = map snd (filter (\<lambda>e. fst e = j) log)"

definition filled_sets_on :: "nat \<Rightarrow> (nat \<times> 'v option) list \<Rightarrow> 'v option list" where
  "filled_sets_on j log = filter (\<lambda>v. v \<noteq> None) (sets_on j log)"

text \<open>
  The results of the parsers that the loop of one step tries on a token: those of the parsers
  up to and including the first one that yields a result, of all parsers when none does.
\<close>

definition triedResults :: "'v ArgumentValueParser list \<Rightarrow> string \<Rightarrow> 'v option list" where
  "triedResults ps tok = map (\<lambda>p. p tok) (take (Suc (length (takeWhile (\<lambda>p. p tok = None) ps))) ps)"

section \<open>ArgumentParser.ts\<close>

text \<open>
  The parser object holds a reference to its token array. The field initialiser allocates an
  empty array; the constructor replaces it by a copy (\<^verbatim>\<open>[...args]\<close>) of the array it is
  given, unless that array is missing or empty.
\<close>

record ArgumentParser =
  args :: nat

definition ArgumentParser_new :: "nat option \<Rightarrow> heap \<Rightarrow> ArgumentParser \<times> heap" where
  "ArgumentParser_new given h =
     (case new_array [] h of (a0, h0) \<Rightarrow>
        (case given of
           None \<Rightarrow> (\<lparr>args = a0\<rparr>, h0)
         | Some a \<Rightarrow>
             if arrays h0 a = [] then (\<lparr>args = a0\<rparr>, h0)
             else (case new_array (arrays h0 a) h0 of (a1, h1) \<Rightarrow> (\<lparr>args = a1\<rparr>, h1))))"

text \<open>\<^verbatim>\<open>parse(value, ...parsers)\<close>: first-match mode.\<close>

fun parse :: "string option \<Rightarrow> 'v ArgumentValueParser list \<Rightarrow> 'v option" where
  "parse None ps = None"
| "parse (Some tok) [] = None"
| "parse (Some tok) (parser # rest) =
     (case parser tok of Some result \<Rightarrow> Some result | None \<Rightarrow> parse (Some tok) rest)"

text \<open>
  \<^verbatim>\<open>parseAny(value, ...parsers)\<close>: collect-all mode. \<open>parseAny_loop\<close> is the
  \<^verbatim>\<open>for (let i = 0; i < parsers.size(); i++)\<close> loop with its \<^verbatim>\<open>break\<close>, on the array
  \<^verbatim>\<open>results\<close>, which has one cell per parser. \<open>parseAny_invoked\<close> is the list of the
  indices of the parsers whose \<^verbatim>\<open>parse\<close> is called, in order.
\<close>

definition parseAny_cell :: "'v option \<Rightarrow> 'v option \<Rightarrow> 'v option" where
  "parseAny_cell option result = (if result \<noteq> None then opt_set option result else option)"

function parseAny_loop ::
  "'v ArgumentValueParser list \<Rightarrow> string \<Rightarrow> nat \<Rightarrow> 'v option list \<Rightarrow> 'v option list" where
  "parseAny_loop ps tok i results =
     (if i < length ps then
        (if isSome (parseAny_cell (results ! i) ((ps ! i) tok))
         then results[i := parseAny_cell (results ! i) ((ps ! i) tok)]
         else parseAny_loop ps tok (i + 1) (results[i := parseAny_cell (results ! i) ((ps ! i) tok)]))
      else results)"
  by pat_completeness auto
termination
  by (relation "measure (\<lambda>(ps, tok, i, results). length ps - i)") auto

declare parseAny_loop.simps [simp del]

definition parseAny :: "string option \<Rightarrow> 'v ArgumentValueParser list \<Rightarrow> 'v option list" where
  "parseAny v ps =
     (let results = nones (length ps) in
      case v of None \<Rightarrow> results | Some tok \<Rightarrow> parseAny_loop ps tok 0 results)"

function parseAny_loop_invoked ::
  "'v ArgumentValueParser list \<Rightarrow> string \<Rightarrow> nat \<Rightarrow> 'v option list \<Rightarrow> nat list" where
  "parseAny_loop_invoked ps tok i results =
     (if i < length ps then
        i #
        (if isSome (parseAny_cell (results ! i) ((ps ! i) tok))
         then []
         else parseAny_loop_invoked ps tok (i + 1) (results[i := parseAny_cell (results ! i) ((ps ! i) tok)]))
      else [])"
  by pat_completeness auto
termination
  by (relation "measure (\<lambda>(ps, tok, i, results). length ps - i)") auto

declare parseAny_loop_invoked.simps [simp del]

definition parseAny_invoked :: "string option \<Rightarrow> 'v ArgumentValueParser list \<Rightarrow> nat list" where
  "parseAny_invoked v ps =
     (let results = nones (length ps) in
      case v of None \<Rightarrow> [] | Some tok \<Rightarrow> parseAny_loop_invoked ps tok 0 (results :: 'v option list))"

text \<open>The methods. Each takes the parser object and the store; the ones that change the
  token array return the new store.\<close>

definition get :: "int \<Rightarrow> 'v ArgumentValueParser list \<Rightarrow> ArgumentParser \<Rightarrow> heap \<Rightarrow> 'v option" where
  "get index ps this h = parse (array_index (arrays h (args this)) index) ps"

definition getAny :: "int \<Rightarrow> 'v ArgumentValueParser list \<Rightarrow> ArgumentParser \<Rightarrow> heap \<Rightarrow> 'v option list" where
  "getAny index ps this h = parseAny (array_index (arrays h (args this)) index) ps"

definition shift :: "'v ArgumentValueParser list \<Rightarrow> ArgumentParser \<Rightarrow> heap \<Rightarrow> 'v option \<times> heap" where
  "shift ps this h = (case array_shift (args this) h of (v, h') \<Rightarrow> (parse v ps, h'))"

definition shiftAny :: "'v ArgumentValueParser list \<Rightarrow> ArgumentParser \<Rightarrow> heap \<Rightarrow> 'v option list \<times> heap" where
  "shiftAny ps this h = (case array_shift (args this) h of (v, h') \<Rightarrow> (parseAny v ps, h'))"

definition shiftIf :: "'v ArgumentValueParser list \<Rightarrow> ArgumentParser \<Rightarrow> heap \<Rightarrow> 'v option \<times> heap" where
  "shiftIf ps this h =
     (let result = parse (array_index (arrays h (args this)) 0) ps in
      (result, if result \<noteq> None then array_remove (args this) 0 h else h))"

definition shiftIfAny :: "'v ArgumentValueParser list \<Rightarrow> ArgumentParser \<Rightarrow> heap \<Rightarrow> 'v option list \<times> heap" where
  "shiftIfAny ps this h =
     (let result = parseAny (array_index (arrays h (args this)) 0) ps in
      (result, if list_ex isSome result then array_remove (args this) 0 h else h))"

definition pop :: "'v ArgumentValueParser list \<Rightarrow> ArgumentParser \<Rightarrow> heap \<Rightarrow> 'v option \<times> heap" where
  "pop ps this h = (case array_pop (args this) h of (v, h') \<Rightarrow> (parse v ps, h'))"

definition popAny :: "'v ArgumentValueParser list \<Rightarrow> ArgumentParser \<Rightarrow> heap \<Rightarrow> 'v option list \<times> heap" where
  "popAny ps this h = (case array_pop (args this) h of (v, h') \<Rightarrow> (parseAny v ps, h'))"

definition join :: "'v ArgumentValueParser \<Rightarrow> string \<Rightarrow> ArgumentParser \<Rightarrow> heap \<Rightarrow> 'v option" where
  "join parser separator this h = parse (Some (array_join separator (arrays h (args this)))) [parser]"

definition joinAny :: "'v ArgumentValueParser list \<Rightarrow> string \<Rightarrow> ArgumentParser \<Rightarrow> heap \<Rightarrow> 'v option list" where
  "joinAny ps separator this h = parseAny (Some (array_join separator (arrays h (args this)))) ps"

definition describe :: "ArgumentParser \<Rightarrow> heap \<Rightarrow> 'v ArgumentDescriptor \<times> heap" where
  "describe this h = ArgumentDescriptor_new (Some (args this)) h"

definition getArgs :: "ArgumentParser \<Rightarrow> nat" where
  "getArgs this = args this"

section \<open>Commander.ts\<close>

datatype ExecutionResult = EXECUTED | NOT_FOUND | NO_PERMISSION

text \<open>
  An executor returns a value of type \<^verbatim>\<open>unknown\<close>, of which the code only tests
  \<^verbatim>\<open>result !== false\<close>, or raises an error. \<open>Inl err\<close> is a raised error, \<open>Inr v\<close> a
  returned value. Its arguments are the sender, the \<^verbatim>\<open>ArgumentParser\<close> object built from
  the tokens and the alias used. The executor can change the token array of the parser
  (\<^verbatim>\<open>shift\<close>, \<^verbatim>\<open>pop\<close>), so it takes the store and returns the store it leaves, also when
  it raises.
\<close>

datatype unknown = Boolean bool | Undefined | Opaque string

type_synonym 's ExecutorArgs = "'s \<times> ArgumentParser \<times> string"

datatype 's CExecutor =
  AnonCommandExecutor "'s ExecutorArgs \<Rightarrow> heap \<Rightarrow> (string + unknown) \<times> heap"
| CommandExecutor "'s ExecutorArgs \<Rightarrow> heap \<Rightarrow> (string + unknown) \<times> heap"

text \<open>The field \<^verbatim>\<open>identifier\<close> is named \<open>commandIdentifier\<close>: \<open>identifier\<close> is a keyword of
  Isabelle.\<close>

record CommandConfig =
  commandIdentifier :: string
  aliases :: "string list option"

record 's CommandDescriptor =
  config :: CommandConfig
  executor :: "'s CExecutor"

text \<open>
  The commander: the map of commands, the optional defaulter, whether a \<^verbatim>\<open>commandHook\<close> was
  given to the constructor, and the overridable method \<^verbatim>\<open>canExecute\<close>.
\<close>

record 's Commander =
  commands :: "string \<rightharpoonup> 's CommandDescriptor"
  defaulter :: "(CommandConfig \<Rightarrow> CommandConfig) option"
  commandHook :: bool
  canExecute :: "'s \<Rightarrow> 's CommandDescriptor \<Rightarrow> bool"

text \<open>A settled promise: fulfilled with a value or rejected with an error.\<close>

datatype 'a promise = Fulfilled 'a | Rejected string

text \<open>
  \<^verbatim>\<open>async runExecutor(executor, args)\<close>. The body is \<^verbatim>\<open>try { ... } finally { }\<close> with no
  \<^verbatim>\<open>catch\<close>: an error raised by the executor passes through the empty \<^verbatim>\<open>finally\<close>, the
  \<^verbatim>\<open>return success\<close> after it is not reached, and the promise of the \<^verbatim>\<open>async\<close> function
  is rejected with the error.
\<close>

definition runExecutor :: "'s CExecutor \<Rightarrow> 's ExecutorArgs \<Rightarrow> heap \<Rightarrow> bool promise \<times> heap" where
  "runExecutor ex executorArgs h =
     (case (case ex of AnonCommandExecutor f \<Rightarrow> f executorArgs h | CommandExecutor f \<Rightarrow> f executorArgs h) of
        (Inl err, h') \<Rightarrow> (Rejected err, h')
      | (Inr result, h') \<Rightarrow> (Fulfilled (result \<noteq> Boolean False), h'))"

text \<open>
  What one dispatch does: the \<^verbatim>\<open>ExecutionResult\<close> returned to the caller, the calls of the
  \<^verbatim>\<open>commandHook\<close> (each with the command, the result passed and the executor arguments), the
  error of a rejected promise that no handler is attached to, and the store the dispatch
  leaves. The hook receives the very \<^verbatim>\<open>executorArgs\<close> the executor received, with the same
  parser object: the tokens it reads there are those of \<open>store\<close>, after the executor has run.
\<close>

record 's Dispatch =
  returned :: ExecutionResult
  hookCalls :: "('s CommandDescriptor \<times> bool \<times> 's ExecutorArgs) list"
  unhandledRejection :: "string option"
  store :: heap

text \<open>
  \<^verbatim>\<open>execute(sender, command, args, usedAlias)\<close>, with \<^verbatim>\<open>args\<close> the address of the
  caller's token array. \<^verbatim>\<open>.then((res) => ...)\<close> attaches a fulfilment handler only: it runs
  when the promise is fulfilled and is skipped when the promise is rejected.
\<close>

definition execute ::
  "'s Commander \<Rightarrow> 's \<Rightarrow> 's CommandDescriptor \<Rightarrow> nat \<Rightarrow> string \<Rightarrow> heap \<Rightarrow> 's Dispatch" where
  "execute this sender command argsRef usedAlias h =
     (if \<not> canExecute this sender command
      then \<lparr>returned = NO_PERMISSION, hookCalls = [], unhandledRejection = None, store = h\<rparr>
      else
        (case ArgumentParser_new (Some argsRef) h of
           (argsParser, h1) \<Rightarrow>
             (case runExecutor (executor command) (sender, argsParser, usedAlias) h1 of
                (Fulfilled res, h2) \<Rightarrow>
                  \<lparr>returned = EXECUTED,
                   hookCalls = (if commandHook this then [(command, res, (sender, argsParser, usedAlias))] else []),
                   unhandledRejection = None, store = h2\<rparr>
              | (Rejected err, h2) \<Rightarrow>
                  \<lparr>returned = EXECUTED, hookCalls = [], unhandledRejection = Some err, store = h2\<rparr>)))"

definition executeDescriptor ::
  "'s Commander \<Rightarrow> 's \<Rightarrow> 's CommandDescriptor \<Rightarrow> nat \<Rightarrow> heap \<Rightarrow> 's Dispatch" where
  "executeDescriptor this sender descriptor argsRef h =
     execute this sender descriptor argsRef (commandIdentifier (config descriptor)) h"

definition executeName :: "'s Commander \<Rightarrow> 's \<Rightarrow> string \<Rightarrow> nat \<Rightarrow> heap \<Rightarrow> 's Dispatch" where
  "executeName this sender command argsRef h =
     (case commands this command of
        None \<Rightarrow> \<lparr>returned = NOT_FOUND, hookCalls = [], unhandledRejection = None, store = h\<rparr>
      | Some descriptor \<Rightarrow> execute this sender descriptor argsRef command h)"

definition registerCommand :: "CommandConfig \<Rightarrow> 's CExecutor \<Rightarrow> 's Commander \<Rightarrow> 's Commander" where
  "registerCommand cfg ex this =
     (let descriptor = \<lparr>config = (case defaulter this of Some f \<Rightarrow> f cfg | None \<Rightarrow> cfg), executor = ex\<rparr>;
          byIdentifier = (commands this)(commandIdentifier cfg \<mapsto> descriptor)
      in this\<lparr>commands :=
           (case aliases cfg of
              None \<Rightarrow> byIdentifier
            | Some names \<Rightarrow> fold (\<lambda>a m. m(a \<mapsto> descriptor)) names byIdentifier)\<rparr>)"

section \<open>Example data\<close>

text \<open>Parsers, stores, descriptors, a parser object and a commander on which the theorems below
  are instantiated.\<close>

definition emptyHeap :: heap where
  "emptyHeap = \<lparr>arrays = (\<lambda>a. []), nextRef = 0\<rparr>"

definition acceptAll :: "string ArgumentValueParser" where
  "acceptAll tok = Some tok"

definition rejectAll :: "string ArgumentValueParser" where
  "rejectAll tok = None"

definition exampleDescriptor :: "string ArgumentDescriptor" where
  "exampleDescriptor =
     \<lparr>steps = [\<lparr>parsers = [acceptAll], required = True\<rparr>, \<lparr>parsers = [rejectAll], required = False\<rparr>,
               \<lparr>parsers = [rejectAll], required = True\<rparr>, \<lparr>parsers = [acceptAll], required = False\<rparr>],
      defaultArgs = 0\<rparr>"

definition scenarioDescriptor :: "string ArgumentDescriptor" where
  "scenarioDescriptor =
     \<lparr>steps = [\<lparr>parsers = [acceptAll], required = True\<rparr>, \<lparr>parsers = [rejectAll], required = False\<rparr>,
               \<lparr>parsers = [acceptAll], required = True\<rparr>],
      defaultArgs = 0\<rparr>"

definition twoOptional :: "string ArgumentDescriptor" where
  "twoOptional =
     \<lparr>steps = [\<lparr>parsers = [rejectAll], required = False\<rparr>, \<lparr>parsers = [rejectAll], required = False\<rparr>],
      defaultArgs = 0\<rparr>"

definition twoParsers :: "string ArgumentDescriptor" where
  "twoParsers = \<lparr>steps = [\<lparr>parsers = [rejectAll, acceptAll], required = False\<rparr>], defaultArgs = 0\<rparr>"

definition threeParsers :: "string ArgumentValueParser list" where
  "threeParsers = [rejectAll, acceptAll, acceptAll]"

definition callerHeap :: heap where
  "callerHeap = snd (new_array [''a'', ''b''] emptyHeap)"

definition exampleParser :: ArgumentParser where
  "exampleParser = fst (ArgumentParser_new (Some 0) callerHeap)"

definition parserHeap :: heap where
  "parserHeap = snd (ArgumentParser_new (Some 0) callerHeap)"

definition describedDescriptor :: "string ArgumentDescriptor" where
  "describedDescriptor = fst (describe exampleParser parserHeap)"

definition raisingExecutor :: "string CExecutor" where
  "raisingExecutor = AnonCommandExecutor (\<lambda>executorArgs h. (Inl ''handler failed'', h))"

definition hookedCommander :: "string Commander" where
  "hookedCommander =
     registerCommand \<lparr>commandIdentifier = ''boom'', aliases = None\<rparr> raisingExecutor
       \<lparr>commands = Map.empty, defaulter = None, commandHook = True, canExecute = (\<lambda>sender command. True)\<rparr>"

section \<open>Basic facts\<close>

lemma length_nones [simp]: "length (nones n) = n"
  by (simp add: nones_def)

lemma nth_nones [simp]: "j < n \<Longrightarrow> nones n ! j = None"
  by (simp add: nones_def)

lemma tryParsers_miss:
  "\<forall>p\<in>set ps. p tok = None \<Longrightarrow> tryParsers ps tok None = (None, False)"
  by (induction ps) (auto simp: opt_set_def isSome_def)

lemma tryParsers_find:
  "tryParsers ps tok None =
     (case List.find (\<lambda>p. p tok \<noteq> None) ps of None \<Rightarrow> (None, False) | Some p \<Rightarrow> (p tok, True))"
  by (induction ps) (auto simp: opt_set_def isSome_def)

lemma tryParsers_True:
  "tryParsers ps tok None = (opt, True) \<Longrightarrow> opt \<noteq> None \<and> (\<exists>p\<in>set ps. p tok = opt)"
  by (auto simp: tryParsers_find find_Some_iff split: option.splits)

lemma tryParsers_False:
  "tryParsers ps tok None = (opt, False) \<Longrightarrow> opt = None \<and> (\<forall>p\<in>set ps. p tok = None)"
  by (auto simp: tryParsers_find find_None_iff split: option.splits)

lemma parseFrom_stop:
  "length as \<le> i \<or> length ss \<le> k \<or> length os \<le> k \<Longrightarrow> parseFrom ss as k i os = os"
  by (subst parseFrom.simps) simp

lemma parseFrom_hit:
  "\<not> (length as \<le> i \<or> length ss \<le> k \<or> length os \<le> k) \<Longrightarrow>
   tryParsers (parsers (ss ! k)) (as ! i) (os ! k) = (opt, True) \<Longrightarrow>
   parseFrom ss as k i os = parseFrom ss as (k + 1) (i + 1) (os[k := opt])"
  by (subst parseFrom.simps) simp

lemma parseFrom_miss_required:
  "\<not> (length as \<le> i \<or> length ss \<le> k \<or> length os \<le> k) \<Longrightarrow>
   tryParsers (parsers (ss ! k)) (as ! i) (os ! k) = (opt, False) \<Longrightarrow> required (ss ! k) \<Longrightarrow>
   parseFrom ss as k i os = os[k := opt]"
  by (subst parseFrom.simps) simp

lemma parseFrom_miss_optional:
  "\<not> (length as \<le> i \<or> length ss \<le> k \<or> length os \<le> k) \<Longrightarrow>
   tryParsers (parsers (ss ! k)) (as ! i) (os ! k) = (opt, False) \<Longrightarrow> \<not> required (ss ! k) \<Longrightarrow>
   parseFrom ss as k i os = parseFrom ss as (k + 1) i (os[k := opt])"
  by (subst parseFrom.simps) simp

lemma calls_stop:
  "length as \<le> i \<or> length ss \<le> k \<or> length os \<le> k \<Longrightarrow> parseFrom_calls ss as k i os = [(k, i, os)]"
  by (subst parseFrom_calls.simps) simp

lemma calls_hit:
  "\<not> (length as \<le> i \<or> length ss \<le> k \<or> length os \<le> k) \<Longrightarrow>
   tryParsers (parsers (ss ! k)) (as ! i) (os ! k) = (opt, True) \<Longrightarrow>
   parseFrom_calls ss as k i os = (k, i, os) # parseFrom_calls ss as (k + 1) (i + 1) (os[k := opt])"
  by (subst parseFrom_calls.simps) simp

lemma calls_miss_required:
  "\<not> (length as \<le> i \<or> length ss \<le> k \<or> length os \<le> k) \<Longrightarrow>
   tryParsers (parsers (ss ! k)) (as ! i) (os ! k) = (opt, False) \<Longrightarrow> required (ss ! k) \<Longrightarrow>
   parseFrom_calls ss as k i os = [(k, i, os)]"
  by (subst parseFrom_calls.simps) simp

lemma calls_miss_optional:
  "\<not> (length as \<le> i \<or> length ss \<le> k \<or> length os \<le> k) \<Longrightarrow>
   tryParsers (parsers (ss ! k)) (as ! i) (os ! k) = (opt, False) \<Longrightarrow> \<not> required (ss ! k) \<Longrightarrow>
   parseFrom_calls ss as k i os = (k, i, os) # parseFrom_calls ss as (k + 1) i (os[k := opt])"
  by (subst parseFrom_calls.simps) simp

lemma step_cases [case_names stop hit miss_required miss_optional]:
  fixes ss :: "'v ParseStep list" and as :: "string list" and k i :: nat and os :: "'v option list"
  obtains "length as \<le> i \<or> length ss \<le> k \<or> length os \<le> k"
  | opt where "\<not> (length as \<le> i \<or> length ss \<le> k \<or> length os \<le> k)"
      "tryParsers (parsers (ss ! k)) (as ! i) (os ! k) = (opt, True)"
  | opt where "\<not> (length as \<le> i \<or> length ss \<le> k \<or> length os \<le> k)"
      "tryParsers (parsers (ss ! k)) (as ! i) (os ! k) = (opt, False)" "required (ss ! k)"
  | opt where "\<not> (length as \<le> i \<or> length ss \<le> k \<or> length os \<le> k)"
      "tryParsers (parsers (ss ! k)) (as ! i) (os ! k) = (opt, False)" "\<not> required (ss ! k)"
proof -
  obtain opt m where t: "tryParsers (parsers (ss ! k)) (as ! i) (os ! k) = (opt, m)"
    by (cases "tryParsers (parsers (ss ! k)) (as ! i) (os ! k)")
  show thesis
  proof (cases "length as \<le> i \<or> length ss \<le> k \<or> length os \<le> k")
    case True
    then show ?thesis by (rule that(1))
  next
    case g: False
    show ?thesis
    proof (cases m)
      case True
      with t g show ?thesis using that(2)[of opt] by simp
    next
      case False
      with t g show ?thesis using that(3)[of opt] that(4)[of opt] by (cases "required (ss ! k)") simp_all
    qed
  qed
qed

lemma length_parseFrom [simp]:
  "length (parseFrom ss as k i os) = length os"
proof (induction ss as k i os rule: parseFrom.induct)
  case (1 ss as k i os)
  show ?case
  proof (cases rule: step_cases[where ss=ss and as=as and k=k and i=i and os=os])
    case stop
    then show ?thesis by (simp add: parseFrom_stop)
  next
    case (hit opt)
    then show ?thesis using "1.IH"(1)[OF hit(1) hit(2)[symmetric]] by (simp add: parseFrom_hit)
  next
    case (miss_required opt)
    then show ?thesis by (simp add: parseFrom_miss_required)
  next
    case (miss_optional opt)
    then show ?thesis using "1.IH"(2)[OF miss_optional(1) miss_optional(2)[symmetric]]
      by (simp add: parseFrom_miss_optional)
  qed
qed

lemma calls_result:
  "(k', i', os') \<in> set (parseFrom_calls ss as k i os) \<Longrightarrow>
     parseFrom ss as k' i' os' = parseFrom ss as k i os"
proof (induction ss as k i os rule: parseFrom_calls.induct)
  case (1 ss as k i os)
  show ?case
  proof (cases rule: step_cases[where ss=ss and as=as and k=k and i=i and os=os])
    case stop
    then show ?thesis using "1.prems" by (simp add: calls_stop)
  next
    case (hit opt)
    then show ?thesis
      using "1.prems" "1.IH"(1)[OF hit(1) hit(2)[symmetric]]
      by (auto simp: calls_hit parseFrom_hit)
  next
    case (miss_required opt)
    then show ?thesis using "1.prems" by (simp add: calls_miss_required)
  next
    case (miss_optional opt)
    then show ?thesis
      using "1.prems" "1.IH"(2)[OF miss_optional(1) miss_optional(2)[symmetric]]
      by (auto simp: calls_miss_optional parseFrom_miss_optional)
  qed
qed

lemma calls_suffix:
  "(k', i', os') \<in> set (parseFrom_calls ss as k i os) \<Longrightarrow>
     suffix (parseFrom_calls ss as k' i' os') (parseFrom_calls ss as k i os)"
proof (induction ss as k i os rule: parseFrom_calls.induct)
  case (1 ss as k i os)
  show ?case
  proof (cases rule: step_cases[where ss=ss and as=as and k=k and i=i and os=os])
    case stop
    then show ?thesis using "1.prems" by (simp add: calls_stop)
  next
    case (hit opt)
    then show ?thesis
      using "1.prems" "1.IH"(1)[OF hit(1) hit(2)[symmetric]]
      by (auto simp: calls_hit suffix_Cons)
  next
    case (miss_required opt)
    then show ?thesis using "1.prems" by (simp add: calls_miss_required)
  next
    case (miss_optional opt)
    then show ?thesis
      using "1.prems" "1.IH"(2)[OF miss_optional(1) miss_optional(2)[symmetric]]
      by (auto simp: calls_miss_optional suffix_Cons)
  qed
qed

lemma tail_empty_update: "tail_empty k os \<Longrightarrow> tail_empty (k + 1) (os[k := opt])"
  by (auto simp: tail_empty_def)

lemma calls_inv:
  "(k', i', os') \<in> set (parseFrom_calls ss as k i os) \<Longrightarrow> tail_empty k os \<Longrightarrow>
     tail_empty k' os' \<and> k \<le> k' \<and> i \<le> i' \<and> length os' = length os"
proof (induction ss as k i os rule: parseFrom_calls.induct)
  case (1 ss as k i os)
  note te = tail_empty_update[OF "1.prems"(2)]
  show ?case
  proof (cases rule: step_cases[where ss=ss and as=as and k=k and i=i and os=os])
    case stop
    then show ?thesis using "1.prems" by (simp add: calls_stop)
  next
    case (hit opt)
    then show ?thesis
      using "1.prems" "1.IH"(1)[OF hit(1) hit(2)[symmetric] _ _ te]
      by (auto simp: calls_hit)
  next
    case (miss_required opt)
    then show ?thesis using "1.prems" by (simp add: calls_miss_required)
  next
    case (miss_optional opt)
    then show ?thesis
      using "1.prems" "1.IH"(2)[OF miss_optional(1) miss_optional(2)[symmetric] _ _ _ te]
      by (auto simp: calls_miss_optional)
  qed
qed

lemma length_calls: "length (parseFrom_calls ss as k i os) \<le> Suc (length ss - k)"
proof (induction ss as k i os rule: parseFrom_calls.induct)
  case (1 ss as k i os)
  show ?case
  proof (cases rule: step_cases[where ss=ss and as=as and k=k and i=i and os=os])
    case stop
    then show ?thesis by (simp add: calls_stop)
  next
    case (hit opt)
    then show ?thesis
      using "1.IH"(1)[OF hit(1) hit(2)[symmetric]] by (simp add: calls_hit) arith
  next
    case (miss_required opt)
    then show ?thesis by (simp add: calls_miss_required)
  next
    case (miss_optional opt)
    then show ?thesis
      using "1.IH"(2)[OF miss_optional(1) miss_optional(2)[symmetric]]
      by (simp add: calls_miss_optional) arith
  qed
qed

lemma sets_stop:
  "length as \<le> i \<or> length ss \<le> k \<or> length os \<le> k \<Longrightarrow> parseFrom_sets ss as k i os = []"
  by (subst parseFrom_sets.simps) simp

lemma sets_hit:
  "\<not> (length as \<le> i \<or> length ss \<le> k \<or> length os \<le> k) \<Longrightarrow>
   tryParsers (parsers (ss ! k)) (as ! i) (os ! k) = (opt, True) \<Longrightarrow>
   parseFrom_sets ss as k i os =
     map (Pair k) (tryParsers_sets (parsers (ss ! k)) (as ! i) (os ! k)) @
     parseFrom_sets ss as (k + 1) (i + 1) (os[k := opt])"
  by (subst parseFrom_sets.simps) simp

lemma sets_miss_required:
  "\<not> (length as \<le> i \<or> length ss \<le> k \<or> length os \<le> k) \<Longrightarrow>
   tryParsers (parsers (ss ! k)) (as ! i) (os ! k) = (opt, False) \<Longrightarrow> required (ss ! k) \<Longrightarrow>
   parseFrom_sets ss as k i os = map (Pair k) (tryParsers_sets (parsers (ss ! k)) (as ! i) (os ! k))"
  by (subst parseFrom_sets.simps) simp

lemma sets_miss_optional:
  "\<not> (length as \<le> i \<or> length ss \<le> k \<or> length os \<le> k) \<Longrightarrow>
   tryParsers (parsers (ss ! k)) (as ! i) (os ! k) = (opt, False) \<Longrightarrow> \<not> required (ss ! k) \<Longrightarrow>
   parseFrom_sets ss as k i os =
     map (Pair k) (tryParsers_sets (parsers (ss ! k)) (as ! i) (os ! k)) @
     parseFrom_sets ss as (k + 1) i (os[k := opt])"
  by (subst parseFrom_sets.simps) simp

lemma parseFrom_frame: "j < k \<Longrightarrow> parseFrom ss as k i os ! j = os ! j"
proof (induction ss as k i os rule: parseFrom.induct)
  case (1 ss as k i os)
  show ?case
  proof (cases rule: step_cases[where ss=ss and as=as and k=k and i=i and os=os])
    case stop
    then show ?thesis by (simp add: parseFrom_stop)
  next
    case (hit opt)
    then show ?thesis
      using "1.prems" "1.IH"(1)[OF hit(1) hit(2)[symmetric]] by (simp add: parseFrom_hit)
  next
    case (miss_required opt)
    then show ?thesis using "1.prems" by (simp add: parseFrom_miss_required)
  next
    case (miss_optional opt)
    then show ?thesis
      using "1.prems" "1.IH"(2)[OF miss_optional(1) miss_optional(2)[symmetric]]
      by (simp add: parseFrom_miss_optional)
  qed
qed

lemma sets_index: "e \<in> set (parseFrom_sets ss as k i os) \<Longrightarrow> k \<le> fst e"
proof (induction ss as k i os rule: parseFrom_sets.induct)
  case (1 ss as k i os)
  show ?case
  proof (cases rule: step_cases[where ss=ss and as=as and k=k and i=i and os=os])
    case stop
    then show ?thesis using "1.prems" by (simp add: sets_stop)
  next
    case (hit opt)
    then show ?thesis
      using "1.prems" "1.IH"(1)[OF hit(1) hit(2)[symmetric]] by (auto simp: sets_hit)
  next
    case (miss_required opt)
    then show ?thesis using "1.prems" by (auto simp: sets_miss_required)
  next
    case (miss_optional opt)
    then show ?thesis
      using "1.prems" "1.IH"(2)[OF miss_optional(1) miss_optional(2)[symmetric]]
      by (auto simp: sets_miss_optional)
  qed
qed

lemma sets_later: "j \<le> k \<Longrightarrow> e \<in> set (parseFrom_sets ss as (k + 1) i os) \<Longrightarrow> fst e \<noteq> j"
  using sets_index[of e ss as "k + 1" i os] by simp

lemma sets_later_filter:
  "j \<le> k \<Longrightarrow> filter (\<lambda>e. fst e = j \<and> Q e) (parseFrom_sets ss as (k + 1) i os) = []"
  by (auto simp: filter_empty_conv dest: sets_later)

lemma length_tryParsers_sets: "length (tryParsers_sets ps tok opt) \<le> length ps"
  by (induction ps arbitrary: opt) (auto simp: Let_def)

lemma tryParsers_sets_filled:
  "filter (\<lambda>v. v \<noteq> None) (tryParsers_sets ps tok None) =
     (case fst (tryParsers ps tok None) of None \<Rightarrow> [] | Some x \<Rightarrow> [Some x])"
  by (induction ps) (auto simp: opt_set_def isSome_def Let_def split: option.splits)

lemma filter_map_Pair_other:
  "j \<noteq> k \<Longrightarrow> filter (\<lambda>e. fst e = j \<and> Q (snd e)) (map (Pair k) vs) = []"
  by (induction vs) auto

lemma filter_Pair_filled:
  "filter (\<lambda>e. fst e = k \<and> snd e \<noteq> None) (map (Pair k) vs) = map (Pair k) (filter (\<lambda>v. v \<noteq> None) vs)"
  by (induction vs) auto

lemma step_sets_filled:
  assumes "cell = None" and "tryParsers ps tok cell = (opt, m)"
  shows "filter (\<lambda>e. fst e = k \<and> snd e \<noteq> None) (map (Pair k) (tryParsers_sets ps tok cell)) =
     (case opt of None \<Rightarrow> [] | Some x \<Rightarrow> [(k, Some x)])"
proof -
  have "filter (\<lambda>e. fst e = k \<and> snd e \<noteq> None) (map (Pair k) (tryParsers_sets ps tok None)) =
      map (Pair k) (filter (\<lambda>v. v \<noteq> None) (tryParsers_sets ps tok None))"
    by (rule filter_Pair_filled)
  also have "\<dots> = map (Pair k) (case fst (tryParsers ps tok None) of None \<Rightarrow> [] | Some x \<Rightarrow> [Some x])"
    by (simp only: tryParsers_sets_filled)
  also have "\<dots> = (case opt of None \<Rightarrow> [] | Some x \<Rightarrow> [(k, Some x)])"
    using assms by (simp split: option.splits)
  finally show ?thesis using assms(1) by simp
qed

lemma sets_count:
  "length (filter (\<lambda>e. fst e = j) (parseFrom_sets ss as k i os)) \<le> length (parsers (ss ! j))"
proof (induction ss as k i os rule: parseFrom_sets.induct)
  case (1 ss as k i os)
  have first: "length (filter (\<lambda>e. fst e = j) (map (Pair k) (tryParsers_sets (parsers (ss ! k)) (as ! i) (os ! k))))
      = (if j = k then length (tryParsers_sets (parsers (ss ! k)) (as ! i) (os ! k)) else 0)"
    by (simp add: filter_map comp_def)
  have rest: "j \<le> k \<Longrightarrow> filter (\<lambda>e. fst e = j) (parseFrom_sets ss as (k + 1) i' os') = []" for i' os'
    using sets_later_filter[of j k "\<lambda>e. True" ss as i' os'] by simp
  note len = length_tryParsers_sets[of "parsers (ss ! k)" "as ! i" "os ! k"]
  show ?case
  proof (cases rule: step_cases[where ss=ss and as=as and k=k and i=i and os=os])
    case stop
    then show ?thesis by (simp add: sets_stop)
  next
    case (hit opt)
    show ?thesis
    proof (cases "j = k")
      case True
      then show ?thesis using hit first rest[of "i + 1" "os[k := opt]"] len by (simp add: sets_hit)
    next
      case False
      then show ?thesis
        using hit first "1.IH"(1)[OF hit(1) hit(2)[symmetric]] by (simp add: sets_hit)
    qed
  next
    case (miss_required opt)
    then show ?thesis using first len by (simp add: sets_miss_required)
  next
    case (miss_optional opt)
    show ?thesis
    proof (cases "j = k")
      case True
      then show ?thesis
        using miss_optional first rest[of i "os[k := opt]"] len by (simp add: sets_miss_optional)
    next
      case False
      then show ?thesis
        using miss_optional first "1.IH"(2)[OF miss_optional(1) miss_optional(2)[symmetric]]
        by (simp add: sets_miss_optional)
    qed
  qed
qed

lemma sets_filled:
  "tail_empty k os \<Longrightarrow> k \<le> j \<Longrightarrow> j < length os \<Longrightarrow>
   filter (\<lambda>e. fst e = j \<and> snd e \<noteq> None) (parseFrom_sets ss as k i os) =
     (case parseFrom ss as k i os ! j of None \<Rightarrow> [] | Some x \<Rightarrow> [(j, Some x)])"
proof (induction ss as k i os rule: parseFrom_sets.induct)
  case (1 ss as k i os)
  note te = tail_empty_update[OF "1.prems"(1)]
  have none: "os ! j = None" using "1.prems" by (simp add: tail_empty_def)
  show ?case
  proof (cases rule: step_cases[where ss=ss and as=as and k=k and i=i and os=os])
    case stop
    then show ?thesis using none by (simp add: sets_stop parseFrom_stop)
  next
    case (hit opt)
    have cell: "os ! k = None" using hit(1) "1.prems"(1) by (simp add: tail_empty_def)
    show ?thesis
    proof (cases "j = k")
      case True
      have "parseFrom ss as (k + 1) (i + 1) (os[k := opt]) ! k = opt"
        using hit(1) by (simp add: parseFrom_frame)
      then show ?thesis
        using True hit step_sets_filled[OF cell hit(2), of k]
          sets_later_filter[of k k "\<lambda>e. snd e \<noteq> None" ss as "i + 1" "os[k := opt]"]
        by (simp add: sets_hit parseFrom_hit split: option.splits)
    next
      case False
      then have "k + 1 \<le> j" using "1.prems"(2) by simp
      from "1.IH"(1)[OF hit(1) hit(2)[symmetric] _ te this] "1.prems"(3) False hit
      show ?thesis by (simp add: sets_hit parseFrom_hit filter_map_Pair_other)
    qed
  next
    case (miss_required opt)
    have cell: "os ! k = None" using miss_required(1) "1.prems"(1) by (simp add: tail_empty_def)
    show ?thesis
    proof (cases "j = k")
      case True
      then show ?thesis
        using miss_required step_sets_filled[OF cell miss_required(2), of k]
        by (simp add: sets_miss_required parseFrom_miss_required split: option.splits)
    next
      case False
      then show ?thesis
        using miss_required none "1.prems"(3)
        by (simp add: sets_miss_required parseFrom_miss_required filter_map_Pair_other)
    qed
  next
    case (miss_optional opt)
    have cell: "os ! k = None" using miss_optional(1) "1.prems"(1) by (simp add: tail_empty_def)
    show ?thesis
    proof (cases "j = k")
      case True
      have "parseFrom ss as (k + 1) i (os[k := opt]) ! k = opt"
        using miss_optional(1) by (simp add: parseFrom_frame)
      then show ?thesis
        using True miss_optional step_sets_filled[OF cell miss_optional(2), of k]
          sets_later_filter[of k k "\<lambda>e. snd e \<noteq> None" ss as i "os[k := opt]"]
        by (simp add: sets_miss_optional parseFrom_miss_optional split: option.splits)
    next
      case False
      then have "k + 1 \<le> j" using "1.prems"(2) by simp
      from "1.IH"(2)[OF miss_optional(1) miss_optional(2)[symmetric] _ _ te this] "1.prems"(3) False miss_optional
      show ?thesis by (simp add: sets_miss_optional parseFrom_miss_optional filter_map_Pair_other)
    qed
  qed
qed

lemma tail_empty_nones: "tail_empty 0 (nones n)"
  by (simp add: tail_empty_def)

lemma compile_reach:
  assumes "(k, i, os) \<in> set (compile_calls h this given)"
  shows "tail_empty k os" and "length os = length (steps this)"
    and "parseFrom (steps this) (compile_args h this given) k i os = compile h this given"
    and "suffix (parseFrom_calls (steps this) (compile_args h this given) k i os) (compile_calls h this given)"
  using assms calls_inv[OF _ tail_empty_nones, of k i os "steps this" "compile_args h this given" 0 "length (steps this)"]
    calls_result[of k i os "steps this" "compile_args h this given" 0 0 "nones (length (steps this))"]
    calls_suffix[of k i os "steps this" "compile_args h this given" 0 0 "nones (length (steps this))"]
  by (simp_all add: compile_calls_def compile_def)

lemma calls_head: "\<exists>rest. parseFrom_calls ss as k i os = (k, i, os) # rest"
  by (subst parseFrom_calls.simps) simp

lemmas example_defs = compile_def compile_calls_def compile_sets_def compile_args_def compile_depth_def
  exampleDescriptor_def twoOptional_def twoParsers_def emptyHeap_def
  acceptAll_def rejectAll_def opt_set_def isSome_def nones_def

lemma calls_optional_miss_next:
  assumes reach: "(k, i, os) \<in> set (parseFrom_calls ss as k0 i0 os0)"
    and start: "tail_empty k0 os0" "length os0 = length ss"
    and k: "k < length ss" and i: "i < length as"
    and opt: "\<not> required (ss ! k)"
    and miss: "\<forall>p\<in>set (parsers (ss ! k)). p (as ! i) = None"
  shows "\<exists>before after. parseFrom_calls ss as k0 i0 os0 = before @ (k, i, os) # (k + 1, i, os) # after"
proof -
  note r = calls_inv[OF reach start(1)]
  have g: "\<not> (length as \<le> i \<or> length ss \<le> k \<or> length os \<le> k)"
    using k i r start(2) by simp
  have cell: "os ! k = None"
    using r start(2) k by (simp add: tail_empty_def)
  have t: "tryParsers (parsers (ss ! k)) (as ! i) (os ! k) = (None, False)"
    using tryParsers_miss[OF miss] cell by simp
  have same: "os[k := None] = os" using cell by (metis list_update_id)
  obtain after where "parseFrom_calls ss as (k + 1) i os = (k + 1, i, os) # after"
    using calls_head by blast
  then have "parseFrom_calls ss as k i os = (k, i, os) # (k + 1, i, os) # after"
    using calls_miss_optional[OF g t opt] same by simp
  with calls_suffix[OF reach] show ?thesis by (auto simp: suffix_def)
qed

lemma compile_sets_count:
  "length (filter (\<lambda>e. fst e = j) (compile_sets h this given)) \<le> length (parsers (steps this ! j))"
  by (simp add: compile_sets_def sets_count)

lemma compile_sets_filled:
  "j < length (steps this) \<Longrightarrow>
   filter (\<lambda>e. fst e = j \<and> snd e \<noteq> None) (compile_sets h this given) =
     (case compile h this given ! j of None \<Rightarrow> [] | Some x \<Rightarrow> [(j, Some x)])"
  using sets_filled[OF tail_empty_nones, of j "length (steps this)" "steps this" "compile_args h this given" 0]
  by (simp add: compile_sets_def compile_def)

lemma filled_sets_on_filter:
  "filled_sets_on j log = map snd (filter (\<lambda>e. fst e = j \<and> snd e \<noteq> None) log)"
  by (induction log) (auto simp: filled_sets_on_def sets_on_def)

lemma compile_sets_on_length:
  "length (sets_on j (compile_sets h this given)) \<le> length (parsers (steps this ! j))"
  using compile_sets_count[of j h this given] by (simp add: sets_on_def)

lemma compile_filled_sets_on:
  "j < length (steps this) \<Longrightarrow>
   filled_sets_on j (compile_sets h this given) =
     (case compile h this given ! j of None \<Rightarrow> [] | Some x \<Rightarrow> [Some x])"
proof -
  assume j: "j < length (steps this)"
  have "filled_sets_on j (compile_sets h this given) =
      map snd (case compile h this given ! j of None \<Rightarrow> [] | Some x \<Rightarrow> [(j, Some x)])"
    by (simp only: filled_sets_on_filter compile_sets_filled[OF j])
  also have "\<dots> = (case compile h this given ! j of None \<Rightarrow> [] | Some x \<Rightarrow> [Some x])"
    by (simp split: option.splits)
  finally show ?thesis .
qed

lemma compile_empty_step:
  assumes k: "k < length (steps this)" and e: "parsers (steps this ! k) = []"
  shows "compile h this given ! k = None"
proof -
  have "sets_on k (compile_sets h this given) = []"
    using compile_sets_on_length[of k h this given] e by simp
  then have "filled_sets_on k (compile_sets h this given) = []"
    by (simp add: filled_sets_on_def)
  then show ?thesis
    using compile_filled_sets_on[OF k, of h given] by (simp split: option.splits)
qed

lemma compile_reach_hit:
  assumes reach: "(k, i, os) \<in> set (compile_calls h this given)"
    and k: "k < length (steps this)"
    and i: "i < length (compile_args h this given)"
    and f: "List.find (\<lambda>p. p (compile_args h this given ! i) \<noteq> None) (parsers (steps this ! k)) = Some p"
  shows "compile h this given ! k = p (compile_args h this given ! i)"
proof -
  note r = compile_reach[OF reach]
  have g: "\<not> (length (compile_args h this given) \<le> i \<or> length (steps this) \<le> k \<or> length os \<le> k)"
    using k i r(2) by simp
  have cell: "os ! k = None"
    using r(1) r(2) k by (simp add: tail_empty_def)
  have t: "tryParsers (parsers (steps this ! k)) (compile_args h this given ! i) (os ! k) =
      (p (compile_args h this given ! i), True)"
    using f cell by (simp add: tryParsers_find)
  have "compile h this given =
      parseFrom (steps this) (compile_args h this given) (k + 1) (i + 1) (os[k := p (compile_args h this given ! i)])"
    using parseFrom_hit[OF g t] r(3) by simp
  then show ?thesis using k r(2) by (simp add: parseFrom_frame)
qed

lemma compile_reach_optional_miss:
  assumes reach: "(k, i, os) \<in> set (compile_calls h this given)"
    and k: "k < length (steps this)"
    and i: "i < length (compile_args h this given)"
    and opt: "\<not> required (steps this ! k)"
    and miss: "\<forall>p\<in>set (parsers (steps this ! k)). p (compile_args h this given ! i) = None"
  shows "compile h this given = parseFrom (steps this) (compile_args h this given) (k + 1) i os"
    and "compile h this given ! k = None"
proof -
  note r = compile_reach[OF reach]
  have g: "\<not> (length (compile_args h this given) \<le> i \<or> length (steps this) \<le> k \<or> length os \<le> k)"
    using k i r(2) by simp
  have cell: "os ! k = None"
    using r(1) r(2) k by (simp add: tail_empty_def)
  have t: "tryParsers (parsers (steps this ! k)) (compile_args h this given ! i) (os ! k) = (None, False)"
    using tryParsers_miss[OF miss] cell by simp
  have same: "os[k := None] = os" using cell by (metis list_update_id)
  show c: "compile h this given = parseFrom (steps this) (compile_args h this given) (k + 1) i os"
    using parseFrom_miss_optional[OF g t opt] same r(3) by simp
  show "compile h this given ! k = None"
    using cell by (simp add: c parseFrom_frame)
qed

lemma tryParsers_sets_tried: "tryParsers_sets ps tok None = triedResults ps tok"
  by (induction ps) (auto simp: triedResults_def opt_set_def isSome_def Let_def)

lemma sets_on_append: "sets_on j (xs @ ys) = sets_on j xs @ sets_on j ys"
  by (simp add: sets_on_def)

lemma sets_on_Pair_same: "sets_on k (map (Pair k) vs) = vs"
  by (induction vs) (auto simp: sets_on_def)

lemma sets_on_Pair_other: "j \<noteq> k \<Longrightarrow> sets_on j (map (Pair k) vs) = []"
  by (induction vs) (auto simp: sets_on_def)

lemma sets_on_later: "j \<le> k \<Longrightarrow> sets_on j (parseFrom_sets ss as (k + 1) i os) = []"
  using sets_later[of j k _ ss as i os] by (auto simp: sets_on_def filter_empty_conv)

lemma sets_on_reached:
  "(j, i, os) \<in> set (parseFrom_calls ss as k0 i0 os0) \<Longrightarrow> tail_empty k0 os0 \<Longrightarrow>
   length os0 = length ss \<Longrightarrow> j < length ss \<Longrightarrow> i < length as \<Longrightarrow>
   sets_on j (parseFrom_sets ss as k0 i0 os0) = triedResults (parsers (ss ! j)) (as ! i)"
proof (induction ss as k0 i0 os0 rule: parseFrom_calls.induct)
  case (1 ss as k0 i0 os0)
  note te = tail_empty_update[OF "1.prems"(2)]
  show ?case
  proof (cases rule: step_cases[where ss=ss and as=as and k=k0 and i=i0 and os=os0])
    case stop
    then show ?thesis using "1.prems" by (auto simp: calls_stop)
  next
    case (hit opt)
    have cell: "os0 ! k0 = None" using hit(1) "1.prems"(2) by (simp add: tail_empty_def)
    show ?thesis
    proof (cases "j = k0")
      case True
      have "i = i0"
        using "1.prems"(1) True hit calls_inv[OF _ te, of j i os ss as "i0 + 1"]
        by (auto simp: calls_hit)
      then show ?thesis
        using True hit cell sets_on_later[of k0 k0 ss as "i0 + 1" "os0[k0 := opt]"]
        by (simp add: sets_hit sets_on_append sets_on_Pair_same tryParsers_sets_tried)
    next
      case False
      then have mem: "(j, i, os) \<in> set (parseFrom_calls ss as (k0 + 1) (i0 + 1) (os0[k0 := opt]))"
        using "1.prems"(1) hit by (auto simp: calls_hit)
      from "1.IH"(1)[OF hit(1) hit(2)[symmetric] _ mem te] "1.prems"(3,4,5) False hit
      show ?thesis by (simp add: sets_hit sets_on_append sets_on_Pair_other)
    qed
  next
    case (miss_required opt)
    have cell: "os0 ! k0 = None" using miss_required(1) "1.prems"(2) by (simp add: tail_empty_def)
    have "j = k0 \<and> i = i0" using "1.prems"(1) miss_required by (simp add: calls_miss_required)
    then show ?thesis
      using miss_required cell
      by (simp add: sets_miss_required sets_on_Pair_same tryParsers_sets_tried)
  next
    case (miss_optional opt)
    have cell: "os0 ! k0 = None" using miss_optional(1) "1.prems"(2) by (simp add: tail_empty_def)
    show ?thesis
    proof (cases "j = k0")
      case True
      have "i = i0"
        using "1.prems"(1) True miss_optional calls_inv[OF _ te, of j i os ss as i0]
        by (auto simp: calls_miss_optional)
      then show ?thesis
        using True miss_optional cell sets_on_later[of k0 k0 ss as i0 "os0[k0 := opt]"]
        by (simp add: sets_miss_optional sets_on_append sets_on_Pair_same tryParsers_sets_tried)
    next
      case False
      then have mem: "(j, i, os) \<in> set (parseFrom_calls ss as (k0 + 1) i0 (os0[k0 := opt]))"
        using "1.prems"(1) miss_optional by (auto simp: calls_miss_optional)
      from "1.IH"(2)[OF miss_optional(1) miss_optional(2)[symmetric] _ _ mem te] "1.prems"(3,4,5) False miss_optional
      show ?thesis by (simp add: sets_miss_optional sets_on_append sets_on_Pair_other)
    qed
  qed
qed

lemma sets_from_calls:
  "e \<in> set (parseFrom_sets ss as k0 i0 os0) \<Longrightarrow>
   \<exists>i os. (fst e, i, os) \<in> set (parseFrom_calls ss as k0 i0 os0) \<and> i < length as"
proof (induction ss as k0 i0 os0 rule: parseFrom_calls.induct)
  case (1 ss as k0 i0 os0)
  show ?case
  proof (cases rule: step_cases[where ss=ss and as=as and k=k0 and i=i0 and os=os0])
    case stop
    then show ?thesis using "1.prems" by (simp add: sets_stop)
  next
    case (hit opt)
    show ?thesis
    proof (cases "e \<in> set (parseFrom_sets ss as (k0 + 1) (i0 + 1) (os0[k0 := opt]))")
      case True
      from "1.IH"(1)[OF hit(1) hit(2)[symmetric] _ True] hit show ?thesis
        by (auto simp: calls_hit)
    next
      case False
      then have "fst e = k0" using "1.prems" hit by (auto simp: sets_hit)
      then show ?thesis using hit by (auto simp: calls_hit)
    qed
  next
    case (miss_required opt)
    then have "fst e = k0" using "1.prems" by (auto simp: sets_miss_required)
    then show ?thesis using miss_required by (auto simp: calls_miss_required)
  next
    case (miss_optional opt)
    show ?thesis
    proof (cases "e \<in> set (parseFrom_sets ss as (k0 + 1) i0 (os0[k0 := opt]))")
      case True
      from "1.IH"(2)[OF miss_optional(1) miss_optional(2)[symmetric] _ _ True] miss_optional show ?thesis
        by (auto simp: calls_miss_optional)
    next
      case False
      then have "fst e = k0" using "1.prems" miss_optional by (auto simp: sets_miss_optional)
      then show ?thesis using miss_optional by (auto simp: calls_miss_optional)
    qed
  qed
qed

lemma sorted_Pair_then:
  "\<forall>e\<in>set rest. k \<le> fst e \<Longrightarrow> sorted (map fst rest) \<Longrightarrow> sorted (map fst (map (Pair k) vs @ rest))"
  by (induction vs) (auto simp: sorted_append)

lemma sets_sorted: "sorted (map fst (parseFrom_sets ss as k i os))"
proof (induction ss as k i os rule: parseFrom_sets.induct)
  case (1 ss as k i os)
  have later: "\<forall>e\<in>set (parseFrom_sets ss as (k + 1) i' os'). k \<le> fst e" for i' os'
    using sets_index[of _ ss as "k + 1" i' os'] by fastforce
  show ?case
  proof (cases rule: step_cases[where ss=ss and as=as and k=k and i=i and os=os])
    case stop
    then show ?thesis by (simp add: sets_stop)
  next
    case (hit opt)
    show ?thesis
      using sorted_Pair_then[OF later "1.IH"(1)[OF hit(1) hit(2)[symmetric]]] hit
      by (simp add: sets_hit)
  next
    case (miss_required opt)
    then show ?thesis
      using sorted_Pair_then[of "[]" k] by (simp add: sets_miss_required)
  next
    case (miss_optional opt)
    show ?thesis
      using sorted_Pair_then[OF later "1.IH"(2)[OF miss_optional(1) miss_optional(2)[symmetric]]] miss_optional
      by (simp add: sets_miss_optional)
  qed
qed


lemma compile_sets_on_reached:
  assumes "(j, i, os) \<in> set (compile_calls h this given)" and "j < length (steps this)"
    and "i < length (compile_args h this given)"
  shows "sets_on j (compile_sets h this given) =
      triedResults (parsers (steps this ! j)) (compile_args h this given ! i)"
  using sets_on_reached[OF assms(1)[unfolded compile_calls_def] tail_empty_nones _ assms(2,3)]
  by (simp add: compile_sets_def)

lemma compile_sets_on_unreached:
  assumes "\<forall>i os. (j, i, os) \<in> set (compile_calls h this given) \<longrightarrow> length (compile_args h this given) \<le> i"
  shows "sets_on j (compile_sets h this given) = []"
proof -
  have "fst e \<noteq> j" if "e \<in> set (compile_sets h this given)" for e
    using sets_from_calls[OF that[unfolded compile_sets_def]] assms
    by (fastforce simp: compile_calls_def)
  then show ?thesis by (auto simp: sets_on_def filter_empty_conv)
qed

section \<open>The claims about the resolution engine\<close>

text \<open>
  C1: when a resolution started by \<^verbatim>\<open>compile\<close> reaches a required step none of whose
  parsers matches the current token, that invocation is the last one (nothing more is tried
  and no further token is consumed), the array returned is the one the invocation received,
  and the cells of this step and of all later steps are empty in it.
\<close>

theorem required_miss_stops_C1:
  assumes reach: "(k, i, os) \<in> set (compile_calls h this given)"
    and k: "k < length (steps this)"
    and i: "i < length (compile_args h this given)"
    and req: "required (steps this ! k)"
    and miss: "\<forall>p\<in>set (parsers (steps this ! k)). p (compile_args h this given ! i) = None"
  shows "compile h this given = os
       \<and> last (compile_calls h this given) = (k, i, os)
       \<and> (\<forall>j. k \<le> j \<and> j < length (steps this) \<longrightarrow> compile h this given ! j = None)"
proof -
  note r = compile_reach[OF reach]
  have g: "\<not> (length (compile_args h this given) \<le> i \<or> length (steps this) \<le> k \<or> length os \<le> k)"
    using k i r(2) by simp
  have cell: "os ! k = None"
    using r(1) r(2) k by (simp add: tail_empty_def)
  have t: "tryParsers (parsers (steps this ! k)) (compile_args h this given ! i) (os ! k) = (None, False)"
    using tryParsers_miss[OF miss] cell by simp
  have "parseFrom (steps this) (compile_args h this given) k i os = os[k := None]"
    by (rule parseFrom_miss_required[OF g t req])
  also have "\<dots> = os" using cell by (metis list_update_id)
  finally have res: "compile h this given = os" using r(3) by simp
  have "parseFrom_calls (steps this) (compile_args h this given) k i os = [(k, i, os)]"
    by (rule calls_miss_required[OF g t req])
  with r(4) have "suffix [(k, i, os)] (compile_calls h this given)" by simp
  then have lst: "last (compile_calls h this given) = (k, i, os)"
    by (auto simp: suffix_def)
  have "\<forall>j. k \<le> j \<and> j < length (steps this) \<longrightarrow> compile h this given ! j = None"
    using res r(1) r(2) by (simp add: tail_empty_def)
  with res lst show ?thesis by blast
qed

theorem required_miss_stops_C1_witness:
  "(2, 1, [Some ''a'', None, None, None]) \<in> set (compile_calls emptyHeap exampleDescriptor (Some [''a'', ''b'']))
   \<and> 2 < length (steps exampleDescriptor)
   \<and> 1 < length (compile_args emptyHeap exampleDescriptor (Some [''a'', ''b'']))
   \<and> required (steps exampleDescriptor ! 2)
   \<and> parsers (steps exampleDescriptor ! 2) = [rejectAll]
   \<and> rejectAll (compile_args emptyHeap exampleDescriptor (Some [''a'', ''b'']) ! 1) = None
   \<and> compile emptyHeap exampleDescriptor (Some [''a'', ''b'']) = [Some ''a'', None, None, None]
   \<and> last (compile_calls emptyHeap exampleDescriptor (Some [''a'', ''b''])) = (2, 1, [Some ''a'', None, None, None])
   \<and> compile emptyHeap exampleDescriptor (Some [''a'', ''b'']) ! 2 = None
   \<and> compile emptyHeap exampleDescriptor (Some [''a'', ''b'']) ! 3 = None"
proof -
  have calls: "compile_calls emptyHeap exampleDescriptor (Some [''a'', ''b'']) =
      [(0, 0, [None, None, None, None]), (1, 1, [Some ''a'', None, None, None]),
       (2, 1, [Some ''a'', None, None, None])]"
    by (simp add: example_defs parseFrom_calls.simps)
  have reach: "(2, 1, [Some ''a'', None, None, None]) \<in> set (compile_calls emptyHeap exampleDescriptor (Some [''a'', ''b'']))"
    by (simp add: calls)
  have k: "2 < length (steps exampleDescriptor)" by (simp add: exampleDescriptor_def)
  have i: "1 < length (compile_args emptyHeap exampleDescriptor (Some [''a'', ''b'']))"
    by (simp add: compile_args_def)
  have req: "required (steps exampleDescriptor ! 2)" by (simp add: exampleDescriptor_def)
  have miss: "\<forall>p\<in>set (parsers (steps exampleDescriptor ! 2)).
         p (compile_args emptyHeap exampleDescriptor (Some [''a'', ''b'']) ! 1) = None"
    by (simp add: exampleDescriptor_def rejectAll_def)
  have ps: "parsers (steps exampleDescriptor ! 2) = [rejectAll]" by (simp add: exampleDescriptor_def)
  have rej: "rejectAll (compile_args emptyHeap exampleDescriptor (Some [''a'', ''b'']) ! 1) = None"
    by (simp add: rejectAll_def)
  have n: "length (steps exampleDescriptor) = 4" by (simp add: exampleDescriptor_def)
  from required_miss_stops_C1[OF reach k i req miss] reach k i req ps rej show ?thesis
    by (simp add: n)
qed

text \<open>
  C2: when a resolution started by \<^verbatim>\<open>compile\<close> reaches an optional step none of whose
  parsers matches the current token, the next invocation has the step cursor advanced by one,
  the same token cursor and the same option array, and what \<^verbatim>\<open>compile\<close> returns is what
  \<^verbatim>\<open>parseFrom\<close> returns from there: the cell of the step stays empty and the same token is
  offered to the next step, whose cell takes the result of its first parser that matches it.
\<close>

theorem optional_miss_reoffers_C2:
  assumes reach: "(k, i, os) \<in> set (compile_calls h this given)"
    and k: "k < length (steps this)"
    and i: "i < length (compile_args h this given)"
    and opt: "\<not> required (steps this ! k)"
    and miss: "\<forall>p\<in>set (parsers (steps this ! k)). p (compile_args h this given ! i) = None"
  shows "(\<exists>before after. compile_calls h this given = before @ (k, i, os) # (k + 1, i, os) # after)
       \<and> compile h this given = parseFrom (steps this) (compile_args h this given) (k + 1) i os
       \<and> compile h this given ! k = None
       \<and> (k + 1 < length (steps this)
            \<and> List.find (\<lambda>q. q (compile_args h this given ! i) \<noteq> None) (parsers (steps this ! (k + 1))) = Some p
          \<longrightarrow> compile h this given ! (k + 1) = p (compile_args h this given ! i))"
proof -
  have tr: "\<exists>before after. compile_calls h this given = before @ (k, i, os) # (k + 1, i, os) # after"
    using calls_optional_miss_next[OF reach[unfolded compile_calls_def] tail_empty_nones _ k i opt miss]
    by (simp add: compile_calls_def)
  then have nxt: "(k + 1, i, os) \<in> set (compile_calls h this given)" by auto
  have hit: "compile h this given ! (k + 1) = p (compile_args h this given ! i)"
    if "k + 1 < length (steps this)"
      "List.find (\<lambda>q. q (compile_args h this given ! i) \<noteq> None) (parsers (steps this ! (k + 1))) = Some p"
    using compile_reach_hit[OF nxt that(1) i that(2)] .
  from tr compile_reach_optional_miss[OF reach k i opt miss] hit show ?thesis by blast
qed

theorem optional_miss_reoffers_C2_witness:
  "(1, 1, [Some ''a'', None, None]) \<in> set (compile_calls emptyHeap scenarioDescriptor (Some [''a'', ''b'']))
   \<and> 1 < length (steps scenarioDescriptor)
   \<and> 1 < length (compile_args emptyHeap scenarioDescriptor (Some [''a'', ''b'']))
   \<and> \<not> required (steps scenarioDescriptor ! 1)
   \<and> parsers (steps scenarioDescriptor ! 1) = [rejectAll]
   \<and> rejectAll (compile_args emptyHeap scenarioDescriptor (Some [''a'', ''b'']) ! 1) = None
   \<and> 1 + 1 < length (steps scenarioDescriptor)
   \<and> List.find (\<lambda>q. q (compile_args emptyHeap scenarioDescriptor (Some [''a'', ''b'']) ! 1) \<noteq> None)
        (parsers (steps scenarioDescriptor ! (1 + 1))) = Some acceptAll
   \<and> (\<exists>before after. compile_calls emptyHeap scenarioDescriptor (Some [''a'', ''b'']) =
         before @ (1, 1, [Some ''a'', None, None]) # (1 + 1, 1, [Some ''a'', None, None]) # after)
   \<and> compile emptyHeap scenarioDescriptor (Some [''a'', ''b'']) =
       parseFrom (steps scenarioDescriptor) (compile_args emptyHeap scenarioDescriptor (Some [''a'', ''b'']))
         (1 + 1) 1 [Some ''a'', None, None]
   \<and> compile emptyHeap scenarioDescriptor (Some [''a'', ''b'']) ! 1 = None
   \<and> compile emptyHeap scenarioDescriptor (Some [''a'', ''b'']) ! (1 + 1) = Some ''b''
   \<and> compile emptyHeap scenarioDescriptor (Some [''a'', ''b'']) = [Some ''a'', None, Some ''b'']"
proof -
  have calls: "compile_calls emptyHeap scenarioDescriptor (Some [''a'', ''b'']) =
      [(0, 0, [None, None, None]), (1, 1, [Some ''a'', None, None]), (2, 1, [Some ''a'', None, None]),
       (3, 2, [Some ''a'', None, Some ''b''])]"
    by (simp add: example_defs scenarioDescriptor_def parseFrom_calls.simps)
  have reach: "(1, 1, [Some ''a'', None, None]) \<in> set (compile_calls emptyHeap scenarioDescriptor (Some [''a'', ''b'']))"
    by (simp add: calls)
  have k: "1 < length (steps scenarioDescriptor)" by (simp add: scenarioDescriptor_def)
  have i: "1 < length (compile_args emptyHeap scenarioDescriptor (Some [''a'', ''b'']))"
    by (simp add: compile_args_def)
  have opt: "\<not> required (steps scenarioDescriptor ! 1)" by (simp add: scenarioDescriptor_def)
  have miss: "\<forall>p\<in>set (parsers (steps scenarioDescriptor ! 1)).
         p (compile_args emptyHeap scenarioDescriptor (Some [''a'', ''b'']) ! 1) = None"
    by (simp add: scenarioDescriptor_def rejectAll_def)
  have ps: "parsers (steps scenarioDescriptor ! 1) = [rejectAll]" by (simp add: scenarioDescriptor_def)
  have rej: "rejectAll (compile_args emptyHeap scenarioDescriptor (Some [''a'', ''b'']) ! 1) = None"
    by (simp add: rejectAll_def)
  have k2: "1 + 1 < length (steps scenarioDescriptor)" by (simp add: scenarioDescriptor_def)
  have f: "List.find (\<lambda>q. q (compile_args emptyHeap scenarioDescriptor (Some [''a'', ''b'']) ! 1) \<noteq> None)
        (parsers (steps scenarioDescriptor ! (1 + 1))) = Some acceptAll"
    by (simp add: scenarioDescriptor_def compile_args_def acceptAll_def)
  have v: "acceptAll (compile_args emptyHeap scenarioDescriptor (Some [''a'', ''b'']) ! 1) = Some ''b''"
    by (simp add: compile_args_def acceptAll_def)
  have res: "compile emptyHeap scenarioDescriptor (Some [''a'', ''b'']) = [Some ''a'', None, Some ''b'']"
    by (simp add: example_defs scenarioDescriptor_def parseFrom.simps)
  note th = optional_miss_reoffers_C2[OF reach k i opt miss, of acceptAll]
  from th k2 f have "compile emptyHeap scenarioDescriptor (Some [''a'', ''b'']) ! (1 + 1) =
      acceptAll (compile_args emptyHeap scenarioDescriptor (Some [''a'', ''b'']) ! 1)"
    by blast
  from this v have nxt: "compile emptyHeap scenarioDescriptor (Some [''a'', ''b'']) ! (1 + 1) = Some ''b''"
    by (rule trans)
  from th reach k i opt ps rej k2 f nxt res show ?thesis by blast
qed


text \<open>
  C3: for every token sequence and every step sequence, the slot sequence returned by
  \<^verbatim>\<open>compile\<close> has as many slots as the descriptor has steps, whatever the number of tokens.
\<close>

theorem compile_length_C3: "length (compile h this given) = length (steps this)"
  by (simp add: compile_def)

text \<open>
  C5 as stated (depth at most the minimum of token count and step count) fails: with one
  token and two optional steps that reject it, the first invocation is followed by two
  nested ones.
\<close>

theorem compile_depth_C5_counterexample:
  "\<not> compile_depth emptyHeap twoOptional (Some [''a''])
      \<le> min (length (compile_args emptyHeap twoOptional (Some [''a'']))) (length (steps twoOptional))"
  by (simp add: compile_depth_def compile_calls_def compile_args_def twoOptional_def parseFrom_calls.simps
      rejectAll_def opt_set_def isSome_def nones_def)

text \<open>
  C5, amended: the recursion is total (the termination proofs of \<open>parseFrom\<close> and
  \<open>parseFrom_calls\<close>) and the number of nested calls is at most the number of steps.
\<close>

theorem compile_depth_C5: "compile_depth h this given \<le> length (steps this)"
  using length_calls[of "steps this" "compile_args h this given" 0 0 "nones (length (steps this))"]
  by (simp add: compile_depth_def compile_calls_def)

text \<open>
  C8 as stated (at most one \<^verbatim>\<open>set\<close> call on each cell) fails: the loop calls
  \<^verbatim>\<open>opt.set\<close> with the result of every parser it tries, so a step whose first parser
  rejects the token and whose second parser accepts it calls \<^verbatim>\<open>set\<close> twice on its cell.
\<close>

theorem compile_sets_C8_counterexample:
  "\<not> length (sets_on 0 (compile_sets emptyHeap twoParsers (Some [''a'']))) \<le> 1"
  by (simp add: example_defs sets_on_def parseFrom_sets.simps)

text \<open>
  C8, amended: during one \<^verbatim>\<open>compile\<close> call the cell of a step that is reached with a token
  receives exactly one \<^verbatim>\<open>set\<close> call per parser tried, in the order of the parsers and with
  the result of each (the parsers tried are those up to and including the first that
  matches); the cell of a step that is not reached with a token receives none; the calls are
  made cell after cell. So a cell receives at most as many calls as its step has parsers, at
  most one of them carries a result, and that result is the content of the cell in the array
  returned.
\<close>

theorem compile_sets_C8:
  assumes "j < length (steps this)"
  shows "length (sets_on j (compile_sets h this given)) \<le> length (parsers (steps this ! j))
       \<and> length (filled_sets_on j (compile_sets h this given)) \<le> 1
       \<and> filled_sets_on j (compile_sets h this given) =
           (case compile h this given ! j of None \<Rightarrow> [] | Some x \<Rightarrow> [Some x])
       \<and> ((j, i, os) \<in> set (compile_calls h this given) \<and> i < length (compile_args h this given) \<longrightarrow>
            sets_on j (compile_sets h this given) =
              triedResults (parsers (steps this ! j)) (compile_args h this given ! i))
       \<and> ((\<forall>i os. (j, i, os) \<in> set (compile_calls h this given) \<longrightarrow> length (compile_args h this given) \<le> i) \<longrightarrow>
            sets_on j (compile_sets h this given) = [])
       \<and> sorted (map fst (compile_sets h this given))"
proof -
  note f = compile_filled_sets_on[OF assms, of h given]
  have one: "length (filled_sets_on j (compile_sets h this given)) \<le> 1"
    unfolding f by (simp split: option.splits)
  have reached: "sets_on j (compile_sets h this given) =
      triedResults (parsers (steps this ! j)) (compile_args h this given ! i)"
    if "(j, i, os) \<in> set (compile_calls h this given)" "i < length (compile_args h this given)"
    by (rule compile_sets_on_reached[OF that(1) assms that(2)])
  have srt: "sorted (map fst (compile_sets h this given))"
    by (simp add: compile_sets_def sets_sorted)
  from one f compile_sets_on_length[of j h this given] reached compile_sets_on_unreached[of j h this given] srt
  show ?thesis by blast
qed

theorem compile_sets_C8_witness:
  "0 < length (steps twoParsers)
   \<and> (0, 0, [None]) \<in> set (compile_calls emptyHeap twoParsers (Some [''a'']))
   \<and> 0 < length (compile_args emptyHeap twoParsers (Some [''a'']))
   \<and> triedResults (parsers (steps twoParsers ! 0)) (compile_args emptyHeap twoParsers (Some [''a'']) ! 0) =
       [None, Some ''a'']
   \<and> sets_on 0 (compile_sets emptyHeap twoParsers (Some [''a''])) = [None, Some ''a'']
   \<and> length (sets_on 0 (compile_sets emptyHeap twoParsers (Some [''a''])))
       \<le> length (parsers (steps twoParsers ! 0))
   \<and> length (filled_sets_on 0 (compile_sets emptyHeap twoParsers (Some [''a'']))) \<le> 1
   \<and> filled_sets_on 0 (compile_sets emptyHeap twoParsers (Some [''a''])) =
           (case compile emptyHeap twoParsers (Some [''a'']) ! 0 of None \<Rightarrow> [] | Some x \<Rightarrow> [Some x])
   \<and> compile emptyHeap twoParsers (Some [''a'']) = [Some ''a'']
   \<and> sorted (map fst (compile_sets emptyHeap twoParsers (Some [''a''])))"
proof -
  have k: "0 < length (steps twoParsers)" by (simp add: twoParsers_def)
  have reach: "(0, 0, [None]) \<in> set (compile_calls emptyHeap twoParsers (Some [''a'']))"
    by (simp add: example_defs parseFrom_calls.simps)
  have i: "0 < length (compile_args emptyHeap twoParsers (Some [''a'']))"
    by (simp add: compile_args_def)
  have t: "triedResults (parsers (steps twoParsers ! 0)) (compile_args emptyHeap twoParsers (Some [''a'']) ! 0) =
       [None, Some ''a'']"
    by (simp add: triedResults_def twoParsers_def compile_args_def rejectAll_def acceptAll_def)
  have res: "compile emptyHeap twoParsers (Some [''a'']) = [Some ''a'']"
    by (simp add: example_defs parseFrom.simps)
  note th = compile_sets_C8[OF k, of emptyHeap "Some [''a'']" 0 "[None]"]
  from th reach i have "sets_on 0 (compile_sets emptyHeap twoParsers (Some [''a''])) =
      triedResults (parsers (steps twoParsers ! 0)) (compile_args emptyHeap twoParsers (Some [''a'']) ! 0)"
    by blast
  from this t have s: "sets_on 0 (compile_sets emptyHeap twoParsers (Some [''a''])) = [None, Some ''a'']"
    by (rule trans)
  from th k reach i t s res show ?thesis by blast
qed

text \<open>
  C10: \<^verbatim>\<open>thenIf\<close> with a false condition appends the step with no parsers and
  \<^verbatim>\<open>required: false\<close>, whatever \<^verbatim>\<open>required\<close> argument it is given, and the arity grows
  by one. In every resolution of a descriptor that has this step (followed by any later
  steps) the cell of the step is empty in the result, and an invocation that reaches the step
  with a token left is followed by the invocation for the next step with the same token
  cursor and the same option array; \<^verbatim>\<open>compile\<close> returns what \<^verbatim>\<open>parseFrom\<close> returns from
  there, so the resolution goes on with the token not consumed: the cell of the next step
  takes the result of its first parser that matches this token.
\<close>

theorem thenIf_false_C10:
  assumes ext: "steps d = steps (thenIf False ps req this) @ later"
  shows "steps (thenIf False ps req this) = steps this @ [\<lparr>parsers = [], required = False\<rparr>]
       \<and> length (compile h (thenIf False ps req this) given) = length (compile h this given) + 1
       \<and> compile h' d given' ! length (steps this) = None
       \<and> ((length (steps this), i, os) \<in> set (compile_calls h' d given') \<and> i < length (compile_args h' d given') \<longrightarrow>
            (\<exists>before after. compile_calls h' d given' =
               before @ (length (steps this), i, os) # (length (steps this) + 1, i, os) # after)
            \<and> compile h' d given' = parseFrom (steps d) (compile_args h' d given') (length (steps this) + 1) i os
            \<and> (length (steps this) + 1 < length (steps d)
                 \<and> List.find (\<lambda>q. q (compile_args h' d given' ! i) \<noteq> None)
                      (parsers (steps d ! (length (steps this) + 1))) = Some p
               \<longrightarrow> compile h' d given' ! (length (steps this) + 1) = p (compile_args h' d given' ! i)))"
proof -
  have st: "steps (thenIf False ps req this) = steps this @ [\<lparr>parsers = [], required = False\<rparr>]"
    by (simp add: thenIf_def)
  have len: "length (compile h (thenIf False ps req this) given) = length (compile h this given) + 1"
    by (simp add: compile_def st)
  have k: "length (steps this) < length (steps d)" by (simp add: ext st)
  have step: "steps d ! length (steps this) = \<lparr>parsers = [], required = False\<rparr>"
    by (simp add: ext st nth_append)
  have opt: "\<not> required (steps d ! length (steps this))" by (simp add: step)
  have miss: "\<forall>p\<in>set (parsers (steps d ! length (steps this))). p (compile_args h' d given' ! i) = None"
    by (simp add: step)
  have empty: "compile h' d given' ! length (steps this) = None"
    by (rule compile_empty_step[OF k]) (simp add: step)
  have next_call: "(\<exists>before after. compile_calls h' d given' =
        before @ (length (steps this), i, os) # (length (steps this) + 1, i, os) # after)
      \<and> compile h' d given' = parseFrom (steps d) (compile_args h' d given') (length (steps this) + 1) i os
      \<and> (length (steps this) + 1 < length (steps d)
           \<and> List.find (\<lambda>q. q (compile_args h' d given' ! i) \<noteq> None)
                (parsers (steps d ! (length (steps this) + 1))) = Some p
         \<longrightarrow> compile h' d given' ! (length (steps this) + 1) = p (compile_args h' d given' ! i))"
    if reach: "(length (steps this), i, os) \<in> set (compile_calls h' d given')"
      and i: "i < length (compile_args h' d given')"
  proof -
    have tr: "\<exists>before after. compile_calls h' d given' =
        before @ (length (steps this), i, os) # (length (steps this) + 1, i, os) # after"
      using calls_optional_miss_next[OF reach[unfolded compile_calls_def] tail_empty_nones _ k i opt miss]
      by (simp add: compile_calls_def)
    then have nxt: "(length (steps this) + 1, i, os) \<in> set (compile_calls h' d given')" by auto
    have hit: "compile h' d given' ! (length (steps this) + 1) = p (compile_args h' d given' ! i)"
      if "length (steps this) + 1 < length (steps d)"
        "List.find (\<lambda>q. q (compile_args h' d given' ! i) \<noteq> None)
           (parsers (steps d ! (length (steps this) + 1))) = Some p"
      using compile_reach_hit[OF nxt that(1) i that(2)] .
    from tr compile_reach_optional_miss(1)[OF reach k i opt miss] hit show ?thesis by blast
  qed
  from st len empty next_call show ?thesis by blast
qed

theorem thenIf_false_C10_witness:
  "steps (thenStep (Single acceptAll) True (thenIf False (Single acceptAll) True twoParsers)) =
     steps (thenIf False (Single acceptAll) True twoParsers) @ [\<lparr>parsers = [acceptAll], required = True\<rparr>]
   \<and> (length (steps twoParsers), 1, [Some ''a'', None, None]) \<in>
       set (compile_calls emptyHeap (thenStep (Single acceptAll) True (thenIf False (Single acceptAll) True twoParsers))
              (Some [''a'', ''b'']))
   \<and> 1 < length (compile_args emptyHeap (thenStep (Single acceptAll) True (thenIf False (Single acceptAll) True twoParsers))
              (Some [''a'', ''b'']))
   \<and> length (steps twoParsers) + 1 <
       length (steps (thenStep (Single acceptAll) True (thenIf False (Single acceptAll) True twoParsers)))
   \<and> List.find
        (\<lambda>q. q (compile_args emptyHeap
                   (thenStep (Single acceptAll) True (thenIf False (Single acceptAll) True twoParsers))
                   (Some [''a'', ''b'']) ! 1) \<noteq> None)
        (parsers (steps (thenStep (Single acceptAll) True (thenIf False (Single acceptAll) True twoParsers)) !
                    (length (steps twoParsers) + 1))) = Some acceptAll
   \<and> steps (thenIf False (Single acceptAll) True twoParsers) = steps twoParsers @ [\<lparr>parsers = [], required = False\<rparr>]
   \<and> length (compile emptyHeap (thenIf False (Single acceptAll) True twoParsers) None) =
       length (compile emptyHeap twoParsers None) + 1
   \<and> compile emptyHeap (thenStep (Single acceptAll) True (thenIf False (Single acceptAll) True twoParsers))
        (Some [''a'', ''b'']) ! length (steps twoParsers) = None
   \<and> (\<exists>before after.
        compile_calls emptyHeap (thenStep (Single acceptAll) True (thenIf False (Single acceptAll) True twoParsers))
          (Some [''a'', ''b'']) =
        before @ (length (steps twoParsers), 1, [Some ''a'', None, None]) #
                 (length (steps twoParsers) + 1, 1, [Some ''a'', None, None]) # after)
   \<and> compile emptyHeap (thenStep (Single acceptAll) True (thenIf False (Single acceptAll) True twoParsers))
        (Some [''a'', ''b'']) =
      parseFrom (steps (thenStep (Single acceptAll) True (thenIf False (Single acceptAll) True twoParsers)))
        (compile_args emptyHeap (thenStep (Single acceptAll) True (thenIf False (Single acceptAll) True twoParsers))
           (Some [''a'', ''b'']))
        (length (steps twoParsers) + 1) 1 [Some ''a'', None, None]
   \<and> compile emptyHeap (thenStep (Single acceptAll) True (thenIf False (Single acceptAll) True twoParsers))
        (Some [''a'', ''b'']) ! (length (steps twoParsers) + 1) = Some ''b''
   \<and> compile emptyHeap (thenStep (Single acceptAll) True (thenIf False (Single acceptAll) True twoParsers))
        (Some [''a'', ''b'']) = [Some ''a'', None, Some ''b'']"
proof -
  let ?d = "thenStep (Single acceptAll) True (thenIf False (Single acceptAll) True twoParsers)"
  have ext: "steps ?d = steps (thenIf False (Single acceptAll) True twoParsers) @ [\<lparr>parsers = [acceptAll], required = True\<rparr>]"
    by (simp add: thenStep_def thenIf_def)
  have calls: "compile_calls emptyHeap ?d (Some [''a'', ''b'']) =
      [(0, 0, [None, None, None]), (1, 1, [Some ''a'', None, None]), (2, 1, [Some ''a'', None, None]),
       (3, 2, [Some ''a'', None, Some ''b''])]"
    by (simp add: example_defs thenStep_def thenIf_def parseFrom_calls.simps)
  have reach: "(length (steps twoParsers), 1, [Some ''a'', None, None]) \<in> set (compile_calls emptyHeap ?d (Some [''a'', ''b'']))"
    by (simp add: calls) (simp add: twoParsers_def)
  have i: "1 < length (compile_args emptyHeap ?d (Some [''a'', ''b'']))"
    by (simp add: compile_args_def)
  have k2: "length (steps twoParsers) + 1 < length (steps ?d)"
    by (simp add: thenStep_def thenIf_def twoParsers_def)
  have f: "List.find (\<lambda>q. q (compile_args emptyHeap ?d (Some [''a'', ''b'']) ! 1) \<noteq> None)
        (parsers (steps ?d ! (length (steps twoParsers) + 1))) = Some acceptAll"
    by (simp add: thenStep_def thenIf_def twoParsers_def compile_args_def acceptAll_def)
  have v: "acceptAll (compile_args emptyHeap ?d (Some [''a'', ''b'']) ! 1) = Some ''b''"
    by (simp add: compile_args_def acceptAll_def)
  have res: "compile emptyHeap ?d (Some [''a'', ''b'']) = [Some ''a'', None, Some ''b'']"
    by (simp add: example_defs thenStep_def thenIf_def parseFrom.simps)
  note th = thenIf_false_C10[OF ext, of emptyHeap None emptyHeap "Some [''a'', ''b'']" 1 "[Some ''a'', None, None]" acceptAll]
  from th reach i k2 f have "compile emptyHeap ?d (Some [''a'', ''b'']) ! (length (steps twoParsers) + 1) =
      acceptAll (compile_args emptyHeap ?d (Some [''a'', ''b'']) ! 1)"
    by blast
  from this v have nxt: "compile emptyHeap ?d (Some [''a'', ''b'']) ! (length (steps twoParsers) + 1) = Some ''b''"
    by (rule trans)
  from th ext reach i k2 f nxt res show ?thesis by blast
qed


lemma parse_Some_iff: "parse (Some tok) ps \<noteq> None \<longleftrightarrow> (\<exists>p\<in>set ps. p tok \<noteq> None)"
  by (induction ps) (auto split: option.splits)

lemma parseAny_loop_miss:
  "\<forall>j. i \<le> j \<and> j < length ps \<longrightarrow> (ps ! j) tok = None \<Longrightarrow> tail_empty i results \<Longrightarrow>
   length results = length ps \<Longrightarrow>
   parseAny_loop ps tok i results = results \<and> parseAny_loop_invoked ps tok i results = [i..<length ps]"
proof (induction ps tok i results rule: parseAny_loop.induct)
  case (1 ps tok i results)
  show ?case
  proof (cases "i < length ps")
    case False
    then show ?thesis
      by (subst parseAny_loop.simps, subst parseAny_loop_invoked.simps) simp
  next
    case True
    have r: "(ps ! i) tok = None" using True "1.prems"(1) by simp
    have c: "results ! i = None" using True "1.prems"(2,3) by (simp add: tail_empty_def)
    have cell: "parseAny_cell (results ! i) ((ps ! i) tok) = None"
      by (simp add: parseAny_cell_def r c)
    have same: "results[i := None] = results" using c by (metis list_update_id)
    have te: "tail_empty (i + 1) results" using "1.prems"(2) by (simp add: tail_empty_def)
    have ih: "parseAny_loop ps tok (i + 1) results = results \<and>
        parseAny_loop_invoked ps tok (i + 1) results = [i + 1..<length ps]"
      using "1.IH"[OF True] cell same te "1.prems"(1,3) by (simp add: isSome_def)
    show ?thesis
      using True cell same ih
      by (subst parseAny_loop.simps, subst parseAny_loop_invoked.simps) (simp add: isSome_def upt_conv_Cons)
  qed
qed

lemma parseAny_loop_first:
  "i \<le> k \<Longrightarrow> k < length ps \<Longrightarrow> (ps ! k) tok \<noteq> None \<Longrightarrow>
   \<forall>j. i \<le> j \<and> j < k \<longrightarrow> (ps ! j) tok = None \<Longrightarrow> tail_empty i results \<Longrightarrow>
   length results = length ps \<Longrightarrow>
   parseAny_loop ps tok i results = results[k := (ps ! k) tok] \<and>
   parseAny_loop_invoked ps tok i results = [i..<k + 1]"
proof (induction ps tok i results rule: parseAny_loop.induct)
  case (1 ps tok i results)
  have il: "i < length ps" using "1.prems"(1,2) by simp
  have c: "results ! i = None" using il "1.prems"(5,6) by (simp add: tail_empty_def)
  show ?case
  proof (cases "i = k")
    case True
    have cell: "parseAny_cell (results ! i) ((ps ! i) tok) = (ps ! k) tok"
      using True "1.prems"(3) c by (simp add: parseAny_cell_def opt_set_def)
    show ?thesis
      using il cell True "1.prems"(3,6)
      by (subst parseAny_loop.simps, subst parseAny_loop_invoked.simps) (simp add: isSome_def)
  next
    case False
    then have lt: "i < k" using "1.prems"(1) by simp
    have r: "(ps ! i) tok = None" using lt "1.prems"(4) by simp
    have cell: "parseAny_cell (results ! i) ((ps ! i) tok) = None"
      by (simp add: parseAny_cell_def r c)
    have same: "results[i := None] = results" using c by (metis list_update_id)
    have te: "tail_empty (i + 1) results" using "1.prems"(5) by (simp add: tail_empty_def)
    have ih: "parseAny_loop ps tok (i + 1) results = results[k := (ps ! k) tok] \<and>
        parseAny_loop_invoked ps tok (i + 1) results = [i + 1..<k + 1]"
      using "1.IH"[OF il] cell same te lt "1.prems"(2,3,4,6) by (simp add: isSome_def)
    show ?thesis
      using il cell same ih lt
      by (subst parseAny_loop.simps, subst parseAny_loop_invoked.simps) (simp add: isSome_def upt_conv_Cons)
  qed
qed

lemma parseAny_filled_iff:
  "list_ex isSome (parseAny (Some tok) ps) \<longleftrightarrow> (\<exists>p\<in>set ps. p tok \<noteq> None)"
proof (cases "\<exists>p\<in>set ps. p tok \<noteq> None")
  case False
  then have "\<forall>j. 0 \<le> j \<and> j < length ps \<longrightarrow> (ps ! j) tok = None" by simp
  from parseAny_loop_miss[OF this tail_empty_nones] False
  show ?thesis by (simp add: parseAny_def list_ex_iff isSome_def nones_def)
next
  case True
  then obtain n where n: "n < length ps" "(ps ! n) tok \<noteq> None"
    by (metis in_set_conv_nth)
  define k where "k = (LEAST n. n < length ps \<and> (ps ! n) tok \<noteq> None)"
  have k: "k < length ps \<and> (ps ! k) tok \<noteq> None"
    unfolding k_def using n by (metis (mono_tags, lifting) LeastI)
  have least: "\<forall>j. 0 \<le> j \<and> j < k \<longrightarrow> (ps ! j) tok = None"
    unfolding k_def using k by (metis (mono_tags, lifting) k_def less_trans not_less_Least)
  have "parseAny_loop ps tok 0 (nones (length ps)) = (nones (length ps))[k := (ps ! k) tok] \<and>
      parseAny_loop_invoked ps tok 0 (nones (length ps)) = [0..<k + 1]"
    by (rule parseAny_loop_first) (use k least tail_empty_nones in simp_all)
  then have "parseAny (Some tok) ps = (nones (length ps))[k := (ps ! k) tok]"
    by (simp add: parseAny_def)
  then have "(ps ! k) tok \<in> set (parseAny (Some tok) ps)"
    using k by (simp add: set_update_memI)
  with k True show ?thesis by (auto simp: list_ex_iff isSome_def)
qed

section \<open>The claims about ArgumentParser\<close>

text \<open>
  C4: in collect-all mode the parsers are tried in order and the loop stops at the first
  parser that yields a result: the cell of that parser is filled and all other cells are
  empty, also where a later parser would match; the parsers invoked are those up to the
  first match (all of them when none matches). With an absent token the result is one empty
  cell per parser and no parser is invoked. \<^verbatim>\<open>getAny\<close>, \<^verbatim>\<open>shiftAny\<close>,
  \<^verbatim>\<open>shiftIfAny\<close>, \<^verbatim>\<open>popAny\<close> and \<^verbatim>\<open>joinAny\<close> return what \<^verbatim>\<open>parseAny\<close> returns on
  their token.
\<close>

theorem parseAny_C4:
  "parseAny None ps = replicate (length ps) None
   \<and> parseAny_invoked None ps = []
   \<and> (k < length ps \<and> (ps ! k) tok \<noteq> None \<and> (\<forall>j<k. (ps ! j) tok = None) \<longrightarrow>
        parseAny (Some tok) ps = (replicate (length ps) None)[k := (ps ! k) tok]
        \<and> parseAny_invoked (Some tok) ps = [0..<k + 1])
   \<and> ((\<forall>j<length ps. (ps ! j) tok = None) \<longrightarrow>
        parseAny (Some tok) ps = replicate (length ps) None
        \<and> parseAny_invoked (Some tok) ps = [0..<length ps])
   \<and> getAny index ps this h = parseAny (array_index (arrays h (args this)) index) ps
   \<and> fst (shiftAny ps this h) = parseAny (array_index (arrays h (args this)) 0) ps
   \<and> fst (shiftIfAny ps this h) = parseAny (array_index (arrays h (args this)) 0) ps
   \<and> fst (popAny ps this h) = parseAny (array_index (arrays h (args this)) (int (length (arrays h (args this))) - 1)) ps
   \<and> joinAny ps separator this h = parseAny (Some (array_join separator (arrays h (args this)))) ps"
proof -
  have absent: "parseAny None ps = replicate (length ps) None \<and> parseAny_invoked None ps = []"
    by (simp add: parseAny_def parseAny_invoked_def nones_def)
  have first: "parseAny (Some tok) ps = (replicate (length ps) None)[k := (ps ! k) tok]
        \<and> parseAny_invoked (Some tok) ps = [0..<k + 1]"
    if "k < length ps" "(ps ! k) tok \<noteq> None" "\<forall>j<k. (ps ! j) tok = None"
  proof -
    have "parseAny_loop ps tok 0 (nones (length ps)) = (nones (length ps))[k := (ps ! k) tok] \<and>
        parseAny_loop_invoked ps tok 0 (nones (length ps)) = [0..<k + 1]"
      by (rule parseAny_loop_first) (use that tail_empty_nones in simp_all)
    then show ?thesis by (simp add: parseAny_def parseAny_invoked_def nones_def)
  qed
  have none: "parseAny (Some tok) ps = replicate (length ps) None
        \<and> parseAny_invoked (Some tok) ps = [0..<length ps]"
    if "\<forall>j<length ps. (ps ! j) tok = None"
  proof -
    have "parseAny_loop ps tok 0 (nones (length ps)) = nones (length ps) \<and>
        parseAny_loop_invoked ps tok 0 (nones (length ps)) = [0..<length ps]"
      by (rule parseAny_loop_miss) (use that tail_empty_nones in simp_all)
    then show ?thesis by (simp add: parseAny_def parseAny_invoked_def nones_def)
  qed
  have g: "getAny index ps this h = parseAny (array_index (arrays h (args this)) index) ps"
    by (simp add: getAny_def)
  have s: "fst (shiftAny ps this h) = parseAny (array_index (arrays h (args this)) 0) ps"
    by (simp add: shiftAny_def array_shift_def array_index_def split: list.splits)
  have si: "fst (shiftIfAny ps this h) = parseAny (array_index (arrays h (args this)) 0) ps"
    by (simp add: shiftIfAny_def Let_def)
  have p: "fst (popAny ps this h) =
      parseAny (array_index (arrays h (args this)) (int (length (arrays h (args this))) - 1)) ps"
    by (simp add: popAny_def array_pop_def array_index_def last_conv_nth split: list.splits)
  have j: "joinAny ps separator this h = parseAny (Some (array_join separator (arrays h (args this)))) ps"
    by (simp add: joinAny_def)
  from absent first none g s si p j show ?thesis by blast
qed

theorem parseAny_C4_witness:
  "1 < length threeParsers \<and> (threeParsers ! 1) ''a'' \<noteq> None \<and> (threeParsers ! 0) ''a'' = None
   \<and> (threeParsers ! 2) ''a'' \<noteq> None
   \<and> parseAny (Some ''a'') threeParsers = [None, Some ''a'', None]
   \<and> parseAny_invoked (Some ''a'') threeParsers = [0, 1]
   \<and> rejectAll ''a'' = None
   \<and> parseAny (Some ''a'') [rejectAll, rejectAll] = [None, None]
   \<and> parseAny_invoked (Some ''a'') [rejectAll, rejectAll] = [0, 1]
   \<and> parseAny None threeParsers = [None, None, None]
   \<and> parseAny_invoked None threeParsers = []"
proof -
  have a: "1 < length threeParsers" by (simp add: threeParsers_def)
  have b: "(threeParsers ! 1) ''a'' \<noteq> None" by (simp add: threeParsers_def acceptAll_def)
  have c: "\<forall>j<1. (threeParsers ! j) ''a'' = None" by (simp add: threeParsers_def rejectAll_def)
  have d: "(threeParsers ! 2) ''a'' \<noteq> None" by (simp add: threeParsers_def acceptAll_def)
  have e: "\<forall>j<length [rejectAll, rejectAll]. ([rejectAll, rejectAll] ! j) ''a'' = None"
    by (simp add: rejectAll_def less_Suc_eq)
  have v: "(threeParsers ! Suc 0) ''a'' = Some ''a''" by (simp add: threeParsers_def acceptAll_def)
  have l: "length threeParsers = 3" by (simp add: threeParsers_def)
  from parseAny_C4[of threeParsers 1 "''a''"] a b c
  have f: "parseAny (Some ''a'') threeParsers = [None, Some ''a'', None]
      \<and> parseAny_invoked (Some ''a'') threeParsers = [0, 1]"
    by (simp add: v l numeral_3_eq_3 upt_rec)
  from parseAny_C4[of "[rejectAll, rejectAll]" 0 "''a''"] e
  have g: "parseAny (Some ''a'') [rejectAll, rejectAll] = [None, None]
      \<and> parseAny_invoked (Some ''a'') [rejectAll, rejectAll] = [0, 1]"
    by (simp add: upt_rec)
  from parseAny_C4[of threeParsers]
  have h: "parseAny None threeParsers = [None, None, None] \<and> parseAny_invoked None threeParsers = []"
    by (simp add: l numeral_3_eq_3)
  have c0: "(threeParsers ! 0) ''a'' = None" by (simp add: threeParsers_def rejectAll_def)
  have r: "rejectAll ''a'' = None" by (simp add: rejectAll_def)
  from a b c0 d r f g h show ?thesis by blast
qed

lemma shiftIf_buffer:
  "arrays (snd (shiftIf ps this h)) (args this) =
     (case arrays h (args this) of
        [] \<Rightarrow> []
      | tok # rest \<Rightarrow> if \<exists>p\<in>set ps. p tok \<noteq> None then rest else tok # rest)"
proof (cases "arrays h (args this)")
  case Nil
  then show ?thesis by (simp add: shiftIf_def array_index_def Let_def)
next
  case (Cons tok rest)
  then show ?thesis
    using parse_Some_iff[of tok ps]
    by (simp add: shiftIf_def array_index_def Let_def array_remove_def del: parse.simps)
qed

lemma shiftIfAny_buffer:
  "arrays (snd (shiftIfAny ps this h)) (args this) =
     (case arrays h (args this) of
        [] \<Rightarrow> []
      | tok # rest \<Rightarrow> if \<exists>p\<in>set ps. p tok \<noteq> None then rest else tok # rest)"
proof (cases "arrays h (args this)")
  case Nil
  then show ?thesis
    by (simp add: shiftIfAny_def array_index_def Let_def parseAny_def list_ex_iff isSome_def nones_def)
next
  case (Cons tok rest)
  then show ?thesis
    using parseAny_filled_iff[of tok ps]
    by (simp add: shiftIfAny_def array_index_def Let_def array_remove_def)
qed

text \<open>
  C9: \<^verbatim>\<open>shiftIf\<close> and \<^verbatim>\<open>shiftIfAny\<close> remove the front token exactly when some parser
  matches it and leave the buffer unchanged otherwise; \<^verbatim>\<open>shift\<close> and \<^verbatim>\<open>shiftAny\<close>
  remove the front token and \<^verbatim>\<open>pop\<close> and \<^verbatim>\<open>popAny\<close> the back token whatever the
  parsers do.
\<close>

theorem take_variants_C9:
  "arrays (snd (shiftIf ps this h)) (args this) =
     (case arrays h (args this) of
        [] \<Rightarrow> []
      | tok # rest \<Rightarrow> if \<exists>p\<in>set ps. p tok \<noteq> None then rest else tok # rest)
   \<and> arrays (snd (shiftIfAny ps this h)) (args this) =
     (case arrays h (args this) of
        [] \<Rightarrow> []
      | tok # rest \<Rightarrow> if \<exists>p\<in>set ps. p tok \<noteq> None then rest else tok # rest)
   \<and> arrays (snd (shift ps this h)) (args this) = tl (arrays h (args this))
   \<and> arrays (snd (shiftAny ps this h)) (args this) = tl (arrays h (args this))
   \<and> arrays (snd (pop ps this h)) (args this) = butlast (arrays h (args this))
   \<and> arrays (snd (popAny ps this h)) (args this) = butlast (arrays h (args this))"
proof -
  have s: "arrays (snd (shift ps this h)) (args this) = tl (arrays h (args this))"
    by (simp add: shift_def array_shift_def split: list.splits)
  have sa: "arrays (snd (shiftAny ps this h)) (args this) = tl (arrays h (args this))"
    by (simp add: shiftAny_def array_shift_def split: list.splits)
  have p: "arrays (snd (pop ps this h)) (args this) = butlast (arrays h (args this))"
    by (simp add: pop_def array_pop_def split: list.splits)
  have pa: "arrays (snd (popAny ps this h)) (args this) = butlast (arrays h (args this))"
    by (simp add: popAny_def array_pop_def split: list.splits)
  from shiftIf_buffer[of ps this h] shiftIfAny_buffer[of ps this h] s sa p pa show ?thesis by blast
qed

theorem take_variants_C9_witness:
  "arrays parserHeap (args exampleParser) = [''a'', ''b'']
   \<and> arrays (snd (shiftIf [rejectAll] exampleParser parserHeap)) (args exampleParser) = [''a'', ''b'']
   \<and> arrays (snd (shiftIf [rejectAll, acceptAll] exampleParser parserHeap)) (args exampleParser) = [''b'']
   \<and> arrays (snd (shiftIfAny [rejectAll] exampleParser parserHeap)) (args exampleParser) = [''a'', ''b'']
   \<and> arrays (snd (shiftIfAny [rejectAll, acceptAll] exampleParser parserHeap)) (args exampleParser) = [''b'']
   \<and> arrays (snd (shift [rejectAll] exampleParser parserHeap)) (args exampleParser) = [''b'']
   \<and> arrays (snd (shiftAny [rejectAll] exampleParser parserHeap)) (args exampleParser) = [''b'']
   \<and> arrays (snd (pop [rejectAll] exampleParser parserHeap)) (args exampleParser) = [''a'']
   \<and> arrays (snd (popAny [rejectAll] exampleParser parserHeap)) (args exampleParser) = [''a'']"
proof -
  have b: "arrays parserHeap (args exampleParser) = [''a'', ''b'']"
    by (simp add: parserHeap_def exampleParser_def callerHeap_def emptyHeap_def ArgumentParser_new_def new_array_def)
  from take_variants_C9[of "[rejectAll]" exampleParser parserHeap]
    take_variants_C9[of "[rejectAll, acceptAll]" exampleParser parserHeap] b
  show ?thesis by (simp add: rejectAll_def acceptAll_def)
qed

lemma array_shift_frame: "b \<noteq> a \<Longrightarrow> arrays (snd (array_shift a h)) b = arrays h b"
  by (simp add: array_shift_def split: list.splits)

lemma array_pop_frame: "b \<noteq> a \<Longrightarrow> arrays (snd (array_pop a h)) b = arrays h b"
  by (simp add: array_pop_def split: list.splits)

lemma array_remove_frame: "b \<noteq> a \<Longrightarrow> arrays (array_remove a n h) b = arrays h b"
  by (simp add: array_remove_def)

lemma take_variants_frame:
  assumes "b \<noteq> args this"
  shows "arrays (snd (shift ps this h)) b = arrays h b"
    and "arrays (snd (shiftAny ps this h)) b = arrays h b"
    and "arrays (snd (shiftIf ps this h)) b = arrays h b"
    and "arrays (snd (shiftIfAny ps this h)) b = arrays h b"
    and "arrays (snd (pop ps this h)) b = arrays h b"
    and "arrays (snd (popAny ps this h)) b = arrays h b"
  using assms array_shift_frame[of b "args this" h] array_pop_frame[of b "args this" h]
  by (auto simp: shift_def shiftAny_def shiftIf_def shiftIfAny_def pop_def popAny_def Let_def
      array_remove_frame split: prod.splits)

lemma ArgumentParser_new_copy:
  assumes "a < nextRef h0" and "ArgumentParser_new (Some a) h0 = (this, h)"
  shows "args this \<noteq> a" and "arrays h (args this) = arrays h0 a" and "arrays h a = arrays h0 a"
  using assms
  by (auto simp: ArgumentParser_new_def new_array_def split: if_splits)

text \<open>
  C6 as stated fails: \<^verbatim>\<open>describe()\<close> passes the parser's own array to the descriptor,
  which stores the reference. After \<^verbatim>\<open>shift\<close> on the parser the tokens that
  \<^verbatim>\<open>compile()\<close> uses by default have changed.
\<close>

theorem describe_shares_buffer_C6_counterexample:
  "compile_args (snd (shift [acceptAll] exampleParser parserHeap)) describedDescriptor None
     \<noteq> compile_args parserHeap describedDescriptor None"
  by (simp add: compile_args_def describedDescriptor_def describe_def ArgumentDescriptor_new_def
      shift_def array_shift_def parserHeap_def exampleParser_def callerHeap_def emptyHeap_def
      ArgumentParser_new_def new_array_def)

text \<open>
  C6, amended: the buffer of a parser is a private copy of the array given to the
  constructor, and the mutating operations change no array but this buffer, so the caller's
  array and the default array of a descriptor that holds another array are unchanged. A
  descriptor created by \<^verbatim>\<open>describe()\<close> holds the buffer itself: its default tokens are
  the current content of the buffer.
\<close>

theorem buffer_ownership_C6:
  assumes "a < nextRef h0" and "ArgumentParser_new (Some a) h0 = (this, h)" and "b \<noteq> args this"
  shows "args this \<noteq> a \<and> arrays h (args this) = arrays h0 a \<and> arrays h a = arrays h0 a
       \<and> arrays (snd (shift ps this h)) b = arrays h b
       \<and> arrays (snd (shiftAny ps this h)) b = arrays h b
       \<and> arrays (snd (shiftIf ps this h)) b = arrays h b
       \<and> arrays (snd (shiftIfAny ps this h)) b = arrays h b
       \<and> arrays (snd (pop ps this h)) b = arrays h b
       \<and> arrays (snd (popAny ps this h)) b = arrays h b
       \<and> defaultArgs (fst (describe this h)) = args this
       \<and> snd (describe this h) = h
       \<and> compile_args h' (fst (describe this h)) None = arrays h' (args this)"
proof -
  have d: "defaultArgs (fst (describe this h)) = args this \<and> snd (describe this h) = h
       \<and> compile_args h' (fst (describe this h)) None = arrays h' (args this)"
    by (simp add: describe_def ArgumentDescriptor_new_def compile_args_def)
  from ArgumentParser_new_copy[OF assms(1,2)] take_variants_frame[OF assms(3), of ps h] d
  show ?thesis by blast
qed

theorem buffer_ownership_C6_witness:
  "0 < nextRef callerHeap
   \<and> ArgumentParser_new (Some 0) callerHeap = (exampleParser, parserHeap)
   \<and> 0 \<noteq> args exampleParser
   \<and> arrays parserHeap (args exampleParser) = arrays callerHeap 0
   \<and> arrays (snd (shift [acceptAll] exampleParser parserHeap)) 0 = arrays parserHeap 0
   \<and> arrays (snd (pop [acceptAll] exampleParser parserHeap)) 0 = arrays parserHeap 0
   \<and> defaultArgs (fst (describe exampleParser parserHeap) :: string ArgumentDescriptor) = args exampleParser
   \<and> compile_args (snd (shift [acceptAll] exampleParser parserHeap))
        (fst (describe exampleParser parserHeap) :: string ArgumentDescriptor) None =
      arrays (snd (shift [acceptAll] exampleParser parserHeap)) (args exampleParser)"
proof -
  have a: "0 < nextRef callerHeap" by (simp add: callerHeap_def new_array_def emptyHeap_def)
  have n: "ArgumentParser_new (Some 0) callerHeap = (exampleParser, parserHeap)"
    by (simp add: exampleParser_def parserHeap_def)
  have b: "0 \<noteq> args exampleParser"
    by (simp add: exampleParser_def callerHeap_def emptyHeap_def ArgumentParser_new_def new_array_def)
  from buffer_ownership_C6[OF a n b, of "[acceptAll]" "snd (shift [acceptAll] exampleParser parserHeap)"] a n b
  show ?thesis by blast
qed

section \<open>The claim about Commander\<close>

lemma execute_returning:
  "canExecute this sender command \<Longrightarrow> commandHook this \<Longrightarrow>
   ArgumentParser_new (Some argsRef) h = (argsParser, h1) \<Longrightarrow>
   executor command = AnonCommandExecutor f \<Longrightarrow> f (sender, argsParser, usedAlias) h1 = (Inr result, h2) \<Longrightarrow>
   execute this sender command argsRef usedAlias h =
     \<lparr>returned = EXECUTED,
      hookCalls = [(command, result \<noteq> Boolean False, (sender, argsParser, usedAlias))],
      unhandledRejection = None, store = h2\<rparr>"
  by (simp add: execute_def runExecutor_def)

lemma execute_raising:
  "canExecute this sender command \<Longrightarrow>
   ArgumentParser_new (Some argsRef) h = (argsParser, h1) \<Longrightarrow>
   executor command = AnonCommandExecutor f \<Longrightarrow> f (sender, argsParser, usedAlias) h1 = (Inl err, h2) \<Longrightarrow>
   execute this sender command argsRef usedAlias h =
     \<lparr>returned = EXECUTED, hookCalls = [], unhandledRejection = Some err, store = h2\<rparr>"
  by (simp add: execute_def runExecutor_def)

text \<open>
  C7, evaluated on the code: a registered handler that raises, on a commander with a
  \<^verbatim>\<open>commandHook\<close>, dispatched with the tokens \<open>[a, b]\<close>. The caller receives
  \<^verbatim>\<open>EXECUTED\<close> and the error does not reach it, but the hook is not called at all: the
  promise is rejected and stays unhandled.
\<close>

theorem raising_handler_C7:
  "returned (executeName hookedCommander ''player'' ''boom'' 0 callerHeap) = EXECUTED
   \<and> hookCalls (executeName hookedCommander ''player'' ''boom'' 0 callerHeap) = []
   \<and> unhandledRejection (executeName hookedCommander ''player'' ''boom'' 0 callerHeap) = Some ''handler failed''"
  by (simp add: executeName_def hookedCommander_def registerCommand_def raisingExecutor_def
      execute_def runExecutor_def split: prod.splits)

end
